theory Spec2Isabelle
  imports Main "HOL-Library.Word" "HOL-Library.Monad_Syntax"
begin

unbundle bit_operations_syntax

section \<open>The high-voltage serial programmer of HVProgrammer.cpp\<close>

text \<open>
  The program drives an ATtiny through five pins and reads one pin back. The model keeps
  the hardware outside: the \<^emph>\<open>environment\<close> says what the k-th read of a pin and the
  k-th call of \<open>millis()\<close> return, the \<^emph>\<open>state\<close> counts the reads made so far and
  records every I/O call in a trace, oldest first.
\<close>

subsection \<open>Data\<close>

type_synonym u8 = "8 word"
type_synonym u16 = "16 word"
type_synonym u32 = "32 word"

datatype pin = RST | SCI | SDO | SII | SDI | VCC | LED_BUILTIN | START_BUTTON_PIN

datatype pin_mode = INPUT | OUTPUT | INPUT_PULLUP

text \<open>
  One event per library call of the source. \<open>ShiftOutCall\<close> and \<open>ShiftOutReturn\<close>
  are the only events that are not library calls: they mark the entry of \<open>shiftOut\<close>,
  with its two arguments, and its return, with the byte returned, so that the sequence of
  transactions and of their answers can be read off the trace.
\<close>

datatype event =
    ShiftOutCall u8 u8
  | ShiftOutReturn u8
  | DigitalWrite pin bool
  | DigitalRead pin bool
  | PinMode pin pin_mode
  | Millis u32
  | Delay nat
  | DelayMicroseconds nat
  | SerialPrint string
  | SerialPrintln string
  | SerialPrintHex nat
  | SerialPrintlnHex nat

record env =
  pin_in :: "pin \<Rightarrow> nat \<Rightarrow> bool"
  millis_in :: "nat \<Rightarrow> u32"

record state =
  pin_reads :: "pin \<Rightarrow> nat"
  millis_reads :: nat
  trace :: "event list"

definition emit :: "event \<Rightarrow> state \<Rightarrow> state" where
  "emit e s = s\<lparr>trace := trace s @ [e]\<rparr>"

definition digitalWrite :: "pin \<Rightarrow> bool \<Rightarrow> state \<Rightarrow> state" where
  "digitalWrite p v s = emit (DigitalWrite p v) s"

definition pinMode :: "pin \<Rightarrow> pin_mode \<Rightarrow> state \<Rightarrow> state" where
  "pinMode p m s = emit (PinMode p m) s"

definition delay :: "nat \<Rightarrow> state \<Rightarrow> state" where
  "delay n s = emit (Delay n) s"

definition delayMicroseconds :: "nat \<Rightarrow> state \<Rightarrow> state" where
  "delayMicroseconds n s = emit (DelayMicroseconds n) s"

definition Serial_print :: "string \<Rightarrow> state \<Rightarrow> state" where
  "Serial_print t s = emit (SerialPrint t) s"

definition Serial_println :: "string \<Rightarrow> state \<Rightarrow> state" where
  "Serial_println t s = emit (SerialPrintln t) s"

definition Serial_print_HEX :: "nat \<Rightarrow> state \<Rightarrow> state" where
  "Serial_print_HEX n s = emit (SerialPrintHex n) s"

definition Serial_println_HEX :: "nat \<Rightarrow> state \<Rightarrow> state" where
  "Serial_println_HEX n s = emit (SerialPrintlnHex n) s"

definition digitalRead :: "env \<Rightarrow> pin \<Rightarrow> state \<Rightarrow> bool \<times> state" where
  "digitalRead E p s =
     (let b = pin_in E p (pin_reads s p)
      in (b, emit (DigitalRead p b) (s\<lparr>pin_reads := (pin_reads s)(p := Suc (pin_reads s p))\<rparr>)))"

definition millis :: "env \<Rightarrow> state \<Rightarrow> u32 \<times> state" where
  "millis E s =
     (let m = millis_in E (millis_reads s)
      in (m, emit (Millis m) (s\<lparr>millis_reads := Suc (millis_reads s)\<rparr>)))"

subsection \<open>Constants\<close>

definition READING_TIMEOUT_MILLIS :: u32 where "READING_TIMEOUT_MILLIS = 300"

definition HFUSE :: u16 where "HFUSE = 0x747C"
definition LFUSE :: u16 where "LFUSE = 0x646C"
definition EFUSE :: u16 where "EFUSE = 0x666E"

definition ATTINY13 :: u16 where "ATTINY13 = 0x9007"
definition ATTINY24 :: u16 where "ATTINY24 = 0x910B"
definition ATTINY25 :: u16 where "ATTINY25 = 0x9108"
definition ATTINY44 :: u16 where "ATTINY44 = 0x9207"
definition ATTINY45 :: u16 where "ATTINY45 = 0x9206"
definition ATTINY84 :: u16 where "ATTINY84 = 0x930C"
definition ATTINY85 :: u16 where "ATTINY85 = 0x930B"

subsection \<open>The wait for SDO\<close>

text \<open>
  The source writes the same wait four times (in \<open>shiftOut\<close>, \<open>readLockBits\<close> and
  \<open>eraseFlashAndLockBits\<close>):
  \<^verbatim>\<open>
    uint32_t tMillis = millis();
    while (!digitalRead(SDO)) {
        if (millis() > (tMillis + READING_TIMEOUT_MILLIS)) { break; }
    }
  \<close>
  The sum is computed in \<open>uint32_t\<close> and wraps. The loop may run forever, so it is a
  partial function: \<open>None\<close> is the loop that never leaves.
\<close>

partial_function (option) waitLoop :: "env \<Rightarrow> u32 \<Rightarrow> state \<Rightarrow> state option" where
  "waitLoop E tMillis s =
     (case digitalRead E SDO s of (b, s1) \<Rightarrow>
        if b then Some s1
        else (case millis E s1 of (m, s2) \<Rightarrow>
          if m > tMillis + READING_TIMEOUT_MILLIS then Some s2
          else waitLoop E tMillis s2))"

definition waitSDO :: "env \<Rightarrow> state \<Rightarrow> state option" where
  "waitSDO E s = (case millis E s of (tMillis, s1) \<Rightarrow> waitLoop E tMillis s1)"

subsection \<open>shiftOut\<close>

text \<open>
  The loop \<open>for (int8_t i = 10; i >= 0; i--)\<close>: the first argument is the number of
  iterations still to run, so that \<open>Suc i\<close> is the iteration with loop variable \<open>i\<close>.
\<close>

fun shiftBits :: "env \<Rightarrow> nat \<Rightarrow> u16 \<Rightarrow> u16 \<Rightarrow> u16 \<Rightarrow> state \<Rightarrow> u16 \<times> state" where
  "shiftBits E 0 tSDIOut tSIIOut tInBits s = (tInBits, s)"
| "shiftBits E (Suc i) tSDIOut tSIIOut tInBits s =
     (let s1 = digitalWrite SDI (tSDIOut AND push_bit i 1 \<noteq> 0) s;
          s2 = digitalWrite SII (tSIIOut AND push_bit i 1 \<noteq> 0) s1;
          tInBits1 = push_bit 1 tInBits
      in case digitalRead E SDO s2 of (b, s3) \<Rightarrow>
        let tInBits2 = tInBits1 OR (if b then 1 else 0);
            s4 = digitalWrite SCI True s3;
            s5 = digitalWrite SCI False s4
        in shiftBits E i tSDIOut tSIIOut tInBits2 s5)"

text \<open>
  \<open>shiftOut\<close> returns at \<open>return tInBits >> 2\<close>, converted to \<open>uint8_t\<close>; the two
  print statements after the return are never run.
\<close>

definition shiftOut :: "env \<Rightarrow> u8 \<Rightarrow> u8 \<Rightarrow> state \<Rightarrow> (u8 \<times> state) option" where
  "shiftOut E aValue aAddress s =
     do {
       s1 \<leftarrow> waitSDO E (emit (ShiftOutCall aValue aAddress) s);
       let tSDIOut = push_bit 2 (ucast aValue :: u16);
       let tSIIOut = push_bit 2 (ucast aAddress :: u16);
       case shiftBits E 11 tSDIOut tSIIOut 0 s1 of (tInBits, s2) \<Rightarrow>
         let r = (ucast (drop_bit 2 tInBits) :: u8)
         in Some (r, emit (ShiftOutReturn r) s2)
     }"

subsection \<open>The operations on the target\<close>

text \<open>
  \<open>readLockBits\<close>, lines 249 to 256: the report of the two lock bits,
  \<open>tValue: x x x x x x LB2 LB1\<close>, where 0 is programmed.
\<close>

definition reportLockBits :: "u8 \<Rightarrow> state \<Rightarrow> state" where
  "reportLockBits tValue s =
     (let s1 = (if tValue AND 0x01 \<noteq> 0
                then Serial_println (CHR 0x0A # CHR 0x09 # CHR 0x09 # ''LB1 Not Programmed'') s
                else Serial_println (CHR 0x0A # CHR 0x09 # CHR 0x09 # ''LB1 Programmed'') s)
      in if tValue AND 0x02 \<noteq> 0
         then Serial_println (CHR 0x09 # CHR 0x09 # ''LB2 Not Programmed'') s1
         else Serial_println (CHR 0x09 # CHR 0x09 # ''LB2 Programmed'') s1)"

definition readLockBits :: "env \<Rightarrow> state \<Rightarrow> state option" where
  "readLockBits E s =
     do {
       let s0 = Serial_println ''Reading lock bits...'' s;
       (_, s1) \<leftarrow> shiftOut E 0x04 0x4C s0;
       (_, s2) \<leftarrow> shiftOut E 0x00 0x78 s1;
       (tValue, s3) \<leftarrow> shiftOut E 0x00 0x7C s2;
       let s4 = Serial_print (CHR 0x09 # ''Lock: '') s3;
       let s5 = Serial_print_HEX (unat tValue) s4;
       let s6 = reportLockBits tValue s5;
       s7 \<leftarrow> waitSDO E s6;
       Some (Serial_println ''Reading Lock Bits complete'' s7)
     }"

definition eraseFlashAndLockBits :: "env \<Rightarrow> state \<Rightarrow> state option" where
  "eraseFlashAndLockBits E s =
     do {
       let s0 = Serial_println (CHR 0x0A # ''Erasing flash and lock bits...'') s;
       (_, s1) \<leftarrow> shiftOut E 0x80 0x4C s0;
       (_, s2) \<leftarrow> shiftOut E 0x00 0x64 s1;
       (_, s3) \<leftarrow> shiftOut E 0x00 0x6C s2;
       s4 \<leftarrow> waitSDO E s3;
       Some (Serial_println (''Erasing complete'' @ [CHR 0x0A]) s4)
     }"

definition writeFuse :: "env \<Rightarrow> u16 \<Rightarrow> u8 \<Rightarrow> state \<Rightarrow> state option" where
  "writeFuse E aFuseAddress aFuseValue s =
     do {
       let s0 = Serial_println '' to ATtiny...''
                  (Serial_print_HEX (unat aFuseValue) (Serial_print ''Writing fuse value '' s));
       (_, s1) \<leftarrow> shiftOut E 0x40 0x4C s0;
       (_, s2) \<leftarrow> shiftOut E aFuseValue 0x2C s1;
       (_, s3) \<leftarrow> shiftOut E 0x00 (ucast (drop_bit 8 aFuseAddress)) s2;
       (_, s4) \<leftarrow> shiftOut E 0x00 (ucast aFuseAddress) s3;
       Some (Serial_println ''Writing complete.'' s4)
     }"

definition readFuses :: "env \<Rightarrow> state \<Rightarrow> state option" where
  "readFuses E s =
     do {
       let s0 = Serial_println ''Reading fuse settings from ATtiny...'' s;
       (_, s1) \<leftarrow> shiftOut E 0x04 0x4C s0;
       (_, s2) \<leftarrow> shiftOut E 0x00 0x68 s1;
       (tValue, s3) \<leftarrow> shiftOut E 0x00 0x6C s2;
       let s4 = Serial_print_HEX (unat tValue) (Serial_print (CHR 0x09 # ''LFuse: '') s3);
       (_, s5) \<leftarrow> shiftOut E 0x04 0x4C s4;
       (_, s6) \<leftarrow> shiftOut E 0x00 0x7A s5;
       (tValue, s7) \<leftarrow> shiftOut E 0x00 0x7E s6;
       let s8 = Serial_print_HEX (unat tValue) (Serial_print '', HFuse: '' s7);
       (_, s9) \<leftarrow> shiftOut E 0x04 0x4C s8;
       (_, s10) \<leftarrow> shiftOut E 0x00 0x6A s9;
       (tValue, s11) \<leftarrow> shiftOut E 0x00 0x6E s10;
       let s12 = Serial_println_HEX (unat tValue) (Serial_print '', EFuse: '' s11);
       Some (Serial_println ''Reading fuse values complete.'' s12)
     }"

text \<open>
  The loop \<open>for (uint8_t tIndex = 1; tIndex < 3; tIndex++)\<close> of \<open>readSignature\<close>,
  with its two variables as arguments.
\<close>

function readSignature_loop :: "env \<Rightarrow> u8 \<Rightarrow> u16 \<Rightarrow> state \<Rightarrow> (u16 \<times> state) option" where
  "readSignature_loop E tIndex tSignature s =
     (if tIndex < 3 then
        do {
          (_, s1) \<leftarrow> shiftOut E 0x08 0x4C s;
          (_, s2) \<leftarrow> shiftOut E tIndex 0x0C s1;
          (_, s3) \<leftarrow> shiftOut E 0x00 0x68 s2;
          (tValue, s4) \<leftarrow> shiftOut E 0x00 0x6C s3;
          readSignature_loop E (tIndex + 1) (push_bit 8 tSignature + ucast tValue) s4
        }
      else Some (tSignature, s))"
  by pat_completeness auto
termination
  by (relation "measure (\<lambda>(E, tIndex, tSignature, s). 3 - unat tIndex)")
     (simp_all add: word_less_nat_alt unat_word_ariths)

declare readSignature_loop.simps [simp del]

definition readSignature :: "env \<Rightarrow> state \<Rightarrow> (u16 \<times> state) option" where
  "readSignature E s = readSignature_loop E 1 0 s"

subsection \<open>The session\<close>

text \<open>
  \<open>loop()\<close> waits for a character on the serial line or for the button, reads the
  character into \<open>tReceivedChar\<close> and runs one programming session. The session is
  modelled from the point where \<open>tReceivedChar\<close> is known (line 111) to the end of the
  function, in four parts: power up (lines 111 to 123), \<open>readSignature\<close> and its report
  (lines 124 to 127), the work on the target (lines 129 to 185) and power down (lines 187
  to 194).
\<close>

definition powerUp :: "state \<Rightarrow> state" where
  "powerUp s =
     (let s1 = digitalWrite LED_BUILTIN True s;
          s2 = pinMode SDO OUTPUT s1;
          s3 = digitalWrite SDI False s2;
          s4 = digitalWrite SII False s3;
          s5 = digitalWrite SDO False s4;
          s6 = digitalWrite RST True s5;
          s7 = digitalWrite VCC True s6;
          s8 = delayMicroseconds 20 s7;
          s9 = digitalWrite RST False s8;
          s10 = delayMicroseconds 10 s9;
          s11 = pinMode SDO INPUT s10;
          s12 = delayMicroseconds 300 s11
      in Serial_println ''Reading signature from connected ATtiny...'' s12)"

text \<open>Line 173, \<open>while (!digitalRead(START_BUTTON_PIN));\<close>: the wait for the button's release.\<close>

partial_function (option) waitButtonRelease :: "env \<Rightarrow> state \<Rightarrow> state option" where
  "waitButtonRelease E s =
     (case digitalRead E START_BUTTON_PIN s of (b, s1) \<Rightarrow>
        if b then Some s1 else waitButtonRelease E s1)"

definition isErase :: "char \<Rightarrow> bool" where
  "isErase tReceivedChar \<longleftrightarrow> tReceivedChar = CHR ''e'' \<or> tReceivedChar = CHR ''E''"

definition isWriteDefaults :: "char \<Rightarrow> bool" where
  "isWriteDefaults tReceivedChar \<longleftrightarrow>
     tReceivedChar \<noteq> CHR ''e'' \<and> tReceivedChar \<noteq> CHR ''E'' \<and>
     tReceivedChar \<noteq> CHR ''r'' \<and> tReceivedChar \<noteq> CHR ''R''"

definition printDeviceName :: "u16 \<Rightarrow> state \<Rightarrow> state" where
  "printDeviceName tSignature s =
     (if tSignature = ATTINY24 then Serial_println ''ATTINY24.'' s
      else if tSignature = ATTINY44 then Serial_println ''ATTINY44.'' s
      else if tSignature = ATTINY84 then Serial_println ''ATTINY84.'' s
      else if tSignature = ATTINY25 then Serial_println ''ATTINY25.'' s
      else if tSignature = ATTINY45 then Serial_println ''ATTINY45.'' s
      else if tSignature = ATTINY85 then Serial_println ''ATTINY85.'' s
      else s)"

text \<open>Lines 136 to 180: the branch on the signature.\<close>

definition writeDefaults :: "env \<Rightarrow> u16 \<Rightarrow> char \<Rightarrow> state \<Rightarrow> state option" where
  "writeDefaults E tSignature tReceivedChar s =
     (if tSignature = ATTINY13 then
        do {
          let s0 = Serial_println ''The ATtiny is detected as ATtiny13/ATtiny13A.'' s;
          if isWriteDefaults tReceivedChar then
            do {
              s1 \<leftarrow> writeFuse E LFUSE 0x6A (Serial_println ''Write LFUSE: 0x6A'' s0);
              s2 \<leftarrow> writeFuse E HFUSE 0xFF (Serial_println ''Write HFUSE: 0xFF'' s1);
              Some (Serial_println [] s2)
            }
          else Some s0
        }
      else if tSignature = ATTINY24 \<or> tSignature = ATTINY44 \<or> tSignature = ATTINY84 \<or>
              tSignature = ATTINY25 \<or> tSignature = ATTINY45 \<or> tSignature = ATTINY85 then
        do {
          let s0 = printDeviceName tSignature (Serial_print ''The ATtiny is detected as '' s);
          if isWriteDefaults tReceivedChar then
            do {
              s1 \<leftarrow> writeFuse E LFUSE 0x62 (Serial_println ''Write LFUSE: 0x62'' s0);
              s2 \<leftarrow> writeFuse E HFUSE 0xDF (Serial_println ''Write HFUSE: 0xDF'' s1);
              writeFuse E EFUSE 0xFF (Serial_println ''Write EFUSE: 0xFF'' s2)
            }
          else Some s0
        }
      else
        do {
          s1 \<leftarrow> waitButtonRelease E s;
          let s2 = delay 100 s1;
          let s3 = Serial_println ''No valid ATtiny signature detected! Try again.'' s2;
          Some (Serial_println [] s3)
        })"

text \<open>Lines 129 to 185: everything between the report of the signature and power down.\<close>

definition programTarget :: "env \<Rightarrow> u16 \<Rightarrow> char \<Rightarrow> state \<Rightarrow> state option" where
  "programTarget E tSignature tReceivedChar s =
     do {
       s1 \<leftarrow> readFuses E s;
       s2 \<leftarrow> readLockBits E s1;
       s3 \<leftarrow> (if isErase tReceivedChar then eraseFlashAndLockBits E s2 else Some s2);
       s4 \<leftarrow> writeDefaults E tSignature tReceivedChar s3;
       if tReceivedChar \<noteq> CHR ''r'' \<and> tReceivedChar \<noteq> CHR ''R'' then
         do {
           let s5 = Serial_println ''Fuses and lock bits will be read again to check values...'' s4;
           s6 \<leftarrow> readFuses E s5;
           readLockBits E s6
         }
       else Some s4
     }"

definition powerDown :: "state \<Rightarrow> state" where
  "powerDown s =
     (let s1 = digitalWrite SCI False s;
          s2 = digitalWrite VCC False s1;
          s3 = digitalWrite RST True s2;
          s4 = Serial_println [] s3;
          s5 = delay 1000 s4;
          s6 = digitalWrite LED_BUILTIN False s5
      in delay 1000 s6)"

definition session :: "env \<Rightarrow> char \<Rightarrow> state \<Rightarrow> state option" where
  "session E tReceivedChar s =
     do {
       (tSignature, s1) \<leftarrow> readSignature E (powerUp s);
       let s2 = Serial_println ''Reading complete..'' s1;
       let s3 = Serial_print (CHR 0x09 # ''Signature is: '') s2;
       let s4 = Serial_println_HEX (unat tSignature) s3;
       s5 \<leftarrow> programTarget E tSignature tReceivedChar s4;
       Some (powerDown s5)
     }"

subsection \<open>Reading a trace\<close>

text \<open>The transactions of a trace: the argument pairs of the calls of \<open>shiftOut\<close>, in order.\<close>

fun transactions :: "event list \<Rightarrow> (u8 \<times> u8) list" where
  "transactions [] = []"
| "transactions (ShiftOutCall v a # es) = (v, a) # transactions es"
| "transactions (_ # es) = transactions es"

text \<open>The bytes that the calls of \<open>shiftOut\<close> returned, in order.\<close>

fun responses :: "event list \<Rightarrow> u8 list" where
  "responses [] = []"
| "responses (ShiftOutReturn r # es) = r # responses es"
| "responses (_ # es) = responses es"

text \<open>The levels read on SDO, in order.\<close>

fun sdo_reads :: "event list \<Rightarrow> bool list" where
  "sdo_reads [] = []"
| "sdo_reads (DigitalRead p b # es) = (if p = SDO then b # sdo_reads es else sdo_reads es)"
| "sdo_reads (_ # es) = sdo_reads es"

text \<open>The events of a wait: reads of SDO and of the clock.\<close>

fun is_poll :: "event \<Rightarrow> bool" where
  "is_poll (DigitalRead p b) = (p = SDO)"
| "is_poll (Millis m) = True"
| "is_poll _ = False"

text \<open>The last \<open>n\<close> elements of a list.\<close>

definition lastn :: "nat \<Rightarrow> 'a list \<Rightarrow> 'a list" where
  "lastn n xs = drop (length xs - n) xs"

subsection \<open>The frame of one transaction, as the specification describes it\<close>

text \<open>
  The shift register: each sample is shifted in from the right, most significant first.
  The byte returned is the register shifted right by 2, cut to 8 bits.
\<close>

fun shift_in :: "u16 \<Rightarrow> bool list \<Rightarrow> u16" where
  "shift_in acc [] = acc"
| "shift_in acc (b # bs) = shift_in (push_bit 1 acc OR (if b then 1 else 0)) bs"

definition response_byte :: "bool list \<Rightarrow> u8" where
  "response_byte bs = ucast (drop_bit 2 (shift_in 0 bs))"

text \<open>The next \<open>n\<close> levels of SDO from read number \<open>k\<close> on.\<close>

definition samples :: "env \<Rightarrow> nat \<Rightarrow> nat \<Rightarrow> bool list" where
  "samples E k n = map (\<lambda>j. pin_in E SDO (k + j)) [0..<n]"

text \<open>
  One clock cycle at bit position \<open>i\<close>: the two output bits, one sample of SDO, then the
  pulse on SCI. A frame of \<open>n\<close> cycles runs through the positions \<open>n - 1\<close> down to 0.
\<close>

definition cycle_events :: "u16 \<Rightarrow> u16 \<Rightarrow> nat \<Rightarrow> bool \<Rightarrow> event list" where
  "cycle_events sdi sii i b =
     [DigitalWrite SDI (bit sdi i), DigitalWrite SII (bit sii i), DigitalRead SDO b,
      DigitalWrite SCI True, DigitalWrite SCI False]"

fun frame_events :: "u16 \<Rightarrow> u16 \<Rightarrow> nat \<Rightarrow> bool list \<Rightarrow> event list" where
  "frame_events sdi sii (Suc i) (b # bs) = cycle_events sdi sii i b @ frame_events sdi sii i bs"
| "frame_events sdi sii _ _ = []"

subsection \<open>The wire: what the target sees\<close>

text \<open>
  The target takes in the levels of SDI and SII at every rising edge of SCI, and the
  programmer keeps for that clock cycle the level it last read on SDO. The levels are
  followed through a trace, whatever else the trace records: \<open>pin_step\<close> is the effect
  of one event on the three levels (SDI, SII, last read of SDO), \<open>clocked\<close> gives the
  levels at every rising edge of SCI.
\<close>

fun pin_step :: "event \<Rightarrow> bool \<times> bool \<times> bool \<Rightarrow> bool \<times> bool \<times> bool" where
  "pin_step (DigitalWrite p v) (d, i, q) =
     (if p = SDI then (v, i, q) else if p = SII then (d, v, q) else (d, i, q))"
| "pin_step (DigitalRead p b) (d, i, q) = (if p = SDO then (d, i, b) else (d, i, q))"
| "pin_step _ L = L"

fun levels :: "bool \<times> bool \<times> bool \<Rightarrow> event list \<Rightarrow> bool \<times> bool \<times> bool" where
  "levels L [] = L"
| "levels L (e # es) = levels (pin_step e L) es"

fun clocked :: "bool \<times> bool \<times> bool \<Rightarrow> event list \<Rightarrow> (bool \<times> bool \<times> bool) list" where
  "clocked L [] = []"
| "clocked L (e # es) =
     (if e = DigitalWrite SCI True then [L] else []) @ clocked (pin_step e L) es"

definition wire :: "event list \<Rightarrow> (bool \<times> bool \<times> bool) list" where
  "wire tr = clocked (False, False, False) tr"

text \<open>The levels that the target takes in: SDI and SII at every rising edge of SCI.\<close>

definition wire_out :: "event list \<Rightarrow> (bool \<times> bool) list" where
  "wire_out tr = map (\<lambda>(d, i, q). (d, i)) (wire tr)"

text \<open>
  The 11 clock cycles of the transaction \<open>(v, a)\<close>: bit 10 down to bit 0 of \<open>v << 2\<close> on
  SDI and of \<open>a << 2\<close> on SII, with the samples \<open>bs\<close> of SDO.
\<close>

definition frame_cycles :: "u8 \<Rightarrow> u8 \<Rightarrow> bool list \<Rightarrow> (bool \<times> bool \<times> bool) list" where
  "frame_cycles v a bs =
     map (\<lambda>(k, b). (bit (push_bit 2 (ucast v :: u16)) k, bit (push_bit 2 (ucast a :: u16)) k, b))
       (zip (rev [0..<11]) bs)"

definition frame_out :: "u8 \<times> u8 \<Rightarrow> (bool \<times> bool) list" where
  "frame_out t =
     map (\<lambda>k. (bit (push_bit 2 (ucast (fst t) :: u16)) k, bit (push_bit 2 (ucast (snd t) :: u16)) k))
       (rev [0..<11])"

text \<open>
  Reading the transactions back from the wire: every 11 cycles give one pair of bytes,
  each byte from the cycles 2 to 9 of its line, most significant bit first.
\<close>

fun decode_frames :: "(bool \<times> bool) list \<Rightarrow> (u8 \<times> u8) list" where
  "decode_frames (c0 # c1 # c2 # c3 # c4 # c5 # c6 # c7 # c8 # c9 # c10 # cs) =
     (response_byte (map fst [c0, c1, c2, c3, c4, c5, c6, c7, c8, c9, c10]),
      response_byte (map snd [c0, c1, c2, c3, c4, c5, c6, c7, c8, c9, c10])) # decode_frames cs"
| "decode_frames _ = []"

text \<open>The transactions clocked out between two states, read back from the wire.\<close>

definition new_frames :: "state \<Rightarrow> state \<Rightarrow> (u8 \<times> u8) list" where
  "new_frames s s' = decode_frames (drop (length (wire_out (trace s))) (wire_out (trace s')))"

text \<open>
  The level last written to a pin in a trace, \<open>None\<close> when the trace has no write to it.
  Target VCC is on when \<open>VCC\<close> was last written high, the 12 V rail is on when \<open>RST\<close> was
  last written low (lines 116 to 118 and 188 to 189).
\<close>

definition last_write :: "pin \<Rightarrow> event list \<Rightarrow> bool option" where
  "last_write p tr =
     fold (\<lambda>e l. case e of DigitalWrite q v \<Rightarrow> (if q = p then Some v else l) | _ \<Rightarrow> l) tr None"


subsection \<open>Assumptions on the environment\<close>

text \<open>
  Every wait for SDO ends: from any read of SDO and any read of the clock on, SDO is
  read high or the clock is read beyond the timeout of a wait started there.
\<close>

definition sdo_live :: "env \<Rightarrow> bool" where
  "sdo_live E \<longleftrightarrow>
     (\<forall>i c. \<exists>m. pin_in E SDO (i + m) \<or>
               millis_in E c + READING_TIMEOUT_MILLIS < millis_in E (Suc c + m))"

text \<open>The button is released at some time: from any read on, it is read high.\<close>

definition button_live :: "env \<Rightarrow> bool" where
  "button_live E \<longleftrightarrow> (\<forall>i. \<exists>m. pin_in E START_BUTTON_PIN (i + m))"

text \<open>
  A clock that is read often, as in the wait for SDO: from one reading to the next it
  stays or advances by one, wrapping from \<open>2^32 - 1\<close> to 0 as \<open>millis()\<close> does, and it
  does not stay for ever.
\<close>

definition clock_steps :: "env \<Rightarrow> bool" where
  "clock_steps E \<longleftrightarrow>
     (\<forall>k. millis_in E (Suc k) = millis_in E k \<or> millis_in E (Suc k) = millis_in E k + 1) \<and>
     (\<forall>k. \<exists>j. millis_in E (k + j) \<noteq> millis_in E k)"

text \<open>The reading that the next call of \<open>millis()\<close> returns, as a number.\<close>

definition clock_now :: "env \<Rightarrow> state \<Rightarrow> nat" where
  "clock_now E s = unat (millis_in E (millis_reads s))"


subsection \<open>The transaction sequences of the specification\<close>

definition readSignature_sequence :: "(u8 \<times> u8) list" where
  "readSignature_sequence =
     [(0x08, 0x4C), (0x01, 0x0C), (0x00, 0x68), (0x00, 0x6C),
      (0x08, 0x4C), (0x02, 0x0C), (0x00, 0x68), (0x00, 0x6C)]"

definition readFuses_sequence :: "(u8 \<times> u8) list" where
  "readFuses_sequence =
     [(0x04, 0x4C), (0x00, 0x68), (0x00, 0x6C),
      (0x04, 0x4C), (0x00, 0x7A), (0x00, 0x7E),
      (0x04, 0x4C), (0x00, 0x6A), (0x00, 0x6E)]"

definition readLockBits_sequence :: "(u8 \<times> u8) list" where
  "readLockBits_sequence = [(0x04, 0x4C), (0x00, 0x78), (0x00, 0x7C)]"

definition erase_sequence :: "(u8 \<times> u8) list" where
  "erase_sequence = [(0x80, 0x4C), (0x00, 0x64), (0x00, 0x6C)]"

text \<open>\<open>(0x40,0x4C) / (value,0x2C) / (0x00,addr-high) / (0x00,addr-low)\<close>\<close>

definition write_sequence :: "u16 \<Rightarrow> u8 \<Rightarrow> (u8 \<times> u8) list" where
  "write_sequence addr v =
     [(0x40, 0x4C), (v, 0x2C), (0x00, ucast (drop_bit 8 addr)), (0x00, ucast addr)]"

subsection \<open>The device table and the modes of the specification\<close>

datatype session_mode = ReadOnly | Erase | WriteDefaults

text \<open>
  The mode token: \<open>r\<close> is read-only, \<open>e\<close> is erase, anything else (the button too) is
  write-defaults.
\<close>

definition mode_of :: "char \<Rightarrow> session_mode" where
  "mode_of c =
     (if c = CHR ''r'' \<or> c = CHR ''R'' then ReadOnly
      else if c = CHR ''e'' \<or> c = CHR ''E'' then Erase
      else WriteDefaults)"

text \<open>
  The known device table: signature to default (low, high, extended) fuse bytes,
  \<open>0x9007 \<rightarrow> (0x6A, 0xFF, -)\<close> and
  \<open>0x910B / 0x9108 / 0x9207 / 0x9206 / 0x930C / 0x930B \<rightarrow> (0x62, 0xDF, 0xFF)\<close>.
\<close>

definition fuse_defaults :: "u16 \<Rightarrow> (u8 \<times> u8 \<times> u8 option) option" where
  "fuse_defaults sig =
     (if sig = 0x9007 then Some (0x6A, 0xFF, None)
      else if sig \<in> {0x910B, 0x9108, 0x9207, 0x9206, 0x930C, 0x930B}
        then Some (0x62, 0xDF, Some 0xFF)
      else None)"

text \<open>
  The writes of the defaults: low fuse at \<open>0x646C\<close>, high fuse at \<open>0x747C\<close>, extended
  fuse, where the table has one, at \<open>0x666E\<close>.
\<close>

definition default_writes :: "u16 \<Rightarrow> (u8 \<times> u8) list" where
  "default_writes sig =
     (case fuse_defaults sig of
        None \<Rightarrow> []
      | Some (l, h, e) \<Rightarrow>
          write_sequence 0x646C l @ write_sequence 0x747C h @
          (case e of None \<Rightarrow> [] | Some x \<Rightarrow> write_sequence 0x666E x))"

text \<open>The transactions of a whole session with the signature \<open>sig\<close> and the mode of \<open>c\<close>.\<close>

definition session_sequence :: "u16 \<Rightarrow> char \<Rightarrow> (u8 \<times> u8) list" where
  "session_sequence sig c =
     readSignature_sequence @ readFuses_sequence @ readLockBits_sequence @
     (if mode_of c = Erase then erase_sequence else []) @
     (if mode_of c = WriteDefaults then default_writes sig else []) @
     (if mode_of c = ReadOnly then [] else readFuses_sequence @ readLockBits_sequence)"

text \<open>The last events of a session: the clock line low, target VCC off, 12 V off.\<close>

definition powerDown_events :: "event list" where
  "powerDown_events =
     [DigitalWrite SCI False, DigitalWrite VCC False, DigitalWrite RST True,
      SerialPrintln [], Delay 1000, DigitalWrite LED_BUILTIN False, Delay 1000]"

declare waitLoop.simps [code]
declare waitButtonRelease.simps [code]

subsection \<open>Sample environments\<close>

text \<open>The state before anything was read or written.\<close>

definition s_init :: state where
  "s_init = \<lparr>pin_reads = (\<lambda>p. 0), millis_reads = 0, trace = []\<rparr>"

text \<open>A target that answers at once: every pin reads high at every even read, low at every odd one.\<close>

definition E_alt :: env where
  "E_alt = \<lparr>pin_in = (\<lambda>p k. even k), millis_in = (\<lambda>k. 0)\<rparr>"

text \<open>
  No answer, and a clock that reads \<open>2^32 - 301\<close> first and advances by one with every
  read, wrapping to 0 after \<open>2^32 - 1\<close> as \<open>millis()\<close> does.
\<close>

definition E_wrap :: env where
  "E_wrap = \<lparr>pin_in = (\<lambda>p k. False), millis_in = (\<lambda>k. 0xFFFFFED3 + of_nat k)\<rparr>"

text \<open>No target, or a line pulled up: every pin reads high at every read.\<close>

definition E_high :: env where
  "E_high = \<lparr>pin_in = (\<lambda>p k. True), millis_in = (\<lambda>k. 0)\<rparr>"



text \<open>
  No target at all: SDO reads low at every read, the other pins read high (the button
  is not pressed), and the clock starts at 0 and advances by one at every read.
\<close>

definition E_low :: env where
  "E_low = \<lparr>pin_in = (\<lambda>p k. p \<noteq> SDO), millis_in = (\<lambda>k. of_nat k)\<rparr>"



section \<open>Properties\<close>

subsection \<open>Traces\<close>

lemma transactions_append [simp]: "transactions (xs @ ys) = transactions xs @ transactions ys"
  by (induction xs rule: transactions.induct) simp_all

lemma responses_append [simp]: "responses (xs @ ys) = responses xs @ responses ys"
  by (induction xs rule: responses.induct) simp_all

lemma sdo_reads_append [simp]: "sdo_reads (xs @ ys) = sdo_reads xs @ sdo_reads ys"
  by (induction xs rule: sdo_reads.induct) simp_all

lemma poll_transactions: "list_all is_poll evs \<Longrightarrow> transactions evs = []"
  by (induction evs rule: transactions.induct) simp_all

lemma poll_responses: "list_all is_poll evs \<Longrightarrow> responses evs = []"
  by (induction evs rule: responses.induct) simp_all

lemma poll_no_write: "list_all is_poll evs \<Longrightarrow> count_list evs (DigitalWrite p v) = 0"
proof (induction evs)
  case Nil
  then show ?case by simp
next
  case (Cons e evs)
  then show ?case by (cases e) simp_all
qed

lemma frame_transactions [simp]: "transactions (frame_events sdi sii n bs) = []"
  by (induction sdi sii n bs rule: frame_events.induct) (simp_all add: cycle_events_def)

lemma frame_responses [simp]: "responses (frame_events sdi sii n bs) = []"
  by (induction sdi sii n bs rule: frame_events.induct) (simp_all add: cycle_events_def)

lemma frame_sdo_reads: "length bs = n \<Longrightarrow> sdo_reads (frame_events sdi sii n bs) = bs"
  by (induction sdi sii n bs rule: frame_events.induct) (simp_all add: cycle_events_def)

lemma frame_pulses:
  "length bs = n \<Longrightarrow> count_list (frame_events sdi sii n bs) (DigitalWrite SCI v) = n"
  by (induction sdi sii n bs rule: frame_events.induct) (auto simp: cycle_events_def)

lemma lastn_append: "length ys = n \<Longrightarrow> lastn n (xs @ ys) = ys"
  by (simp add: lastn_def)

lemma samples_0 [simp]: "samples E k 0 = []"
  by (simp add: samples_def)

lemma samples_Suc: "samples E k (Suc n) = pin_in E SDO k # samples E (Suc k) n"
proof -
  have "[0..<Suc n] = 0 # map Suc [0..<n]"
    by (simp add: upt_conv_Cons map_Suc_upt del: upt_Suc)
  then show ?thesis by (simp add: samples_def comp_def del: upt_Suc)
qed

lemma length_samples [simp]: "length (samples E k n) = n"
  by (simp add: samples_def)

subsection \<open>The primitives\<close>

lemma emit_simps [simp]:
  "trace (emit e s) = trace s @ [e]"
  "pin_reads (emit e s) = pin_reads s"
  "millis_reads (emit e s) = millis_reads s"
  by (simp_all add: emit_def)

lemma digitalWrite_simps [simp]:
  "trace (digitalWrite p v s) = trace s @ [DigitalWrite p v]"
  "pin_reads (digitalWrite p v s) = pin_reads s"
  "millis_reads (digitalWrite p v s) = millis_reads s"
  by (simp_all add: digitalWrite_def)

lemma digitalRead_simps [simp]:
  "fst (digitalRead E p s) = pin_in E p (pin_reads s p)"
  "trace (snd (digitalRead E p s)) = trace s @ [DigitalRead p (pin_in E p (pin_reads s p))]"
  "pin_reads (snd (digitalRead E p s)) = (pin_reads s)(p := Suc (pin_reads s p))"
  "millis_reads (snd (digitalRead E p s)) = millis_reads s"
  by (simp_all add: digitalRead_def Let_def)

lemma millis_simps [simp]:
  "fst (millis E s) = millis_in E (millis_reads s)"
  "trace (snd (millis E s)) = trace s @ [Millis (millis_in E (millis_reads s))]"
  "pin_reads (snd (millis E s)) = pin_reads s"
  "millis_reads (snd (millis E s)) = Suc (millis_reads s)"
  by (simp_all add: millis_def Let_def)

lemma print_simps [simp]:
  "trace (Serial_print t s) = trace s @ [SerialPrint t]"
  "trace (Serial_println t s) = trace s @ [SerialPrintln t]"
  "trace (Serial_print_HEX n s) = trace s @ [SerialPrintHex n]"
  "trace (Serial_println_HEX n s) = trace s @ [SerialPrintlnHex n]"
  "trace (delay n s) = trace s @ [Delay n]"
  "trace (delayMicroseconds n s) = trace s @ [DelayMicroseconds n]"
  "trace (pinMode p m s) = trace s @ [PinMode p m]"
  by (simp_all add: Serial_print_def Serial_println_def Serial_print_HEX_def
      Serial_println_HEX_def delay_def delayMicroseconds_def pinMode_def)

subsection \<open>The wait for SDO\<close>

lemma waitLoop_unfold:
  "waitLoop E tMillis s =
     (if pin_in E SDO (pin_reads s SDO) then Some (snd (digitalRead E SDO s))
      else if tMillis + READING_TIMEOUT_MILLIS < millis_in E (millis_reads s)
        then Some (snd (millis E (snd (digitalRead E SDO s))))
        else waitLoop E tMillis (snd (millis E (snd (digitalRead E SDO s)))))"
  by (subst waitLoop.simps) (simp add: split_def)

lemma waitLoop_terminates:
  "pin_in E SDO (pin_reads s SDO + m) \<or>
   tMillis + READING_TIMEOUT_MILLIS < millis_in E (millis_reads s + m)
   \<Longrightarrow> \<exists>s'. waitLoop E tMillis s = Some s'"
proof (induction m arbitrary: s)
  case 0
  then show ?case by (subst waitLoop_unfold) auto
next
  case (Suc m)
  let ?s2 = "snd (millis E (snd (digitalRead E SDO s)))"
  have "\<exists>s'. waitLoop E tMillis ?s2 = Some s'"
    using Suc.prems by (intro Suc.IH) simp
  then show ?case by (subst waitLoop_unfold) auto
qed

lemma waitLoop_trace:
  "waitLoop E tMillis s = Some s' \<Longrightarrow> \<exists>evs. trace s' = trace s @ evs \<and> list_all is_poll evs"
proof (induction rule: waitLoop.raw_induct[rotated, consumes 1])
  case (1 waitLoop E tMillis s s')
  let ?s1 = "snd (digitalRead E SDO s)"
  let ?s2 = "snd (millis E ?s1)"
  let ?r = "DigitalRead SDO (pin_in E SDO (pin_reads s SDO))"
  let ?m = "Millis (millis_in E (millis_reads s))"
  show ?case
  proof (cases "pin_in E SDO (pin_reads s SDO)")
    case True
    with 1(2) have "s' = ?s1" by (simp add: split_def)
    then show ?thesis by (intro exI[of _ "[?r]"]) simp
  next
    case low: False
    show ?thesis
    proof (cases "tMillis + READING_TIMEOUT_MILLIS < millis_in E (millis_reads s)")
      case True
      with low 1(2) have "s' = ?s2" by (simp add: split_def)
      then show ?thesis by (intro exI[of _ "[?r, ?m]"]) simp
    next
      case False
      with low 1(2) have "waitLoop E tMillis ?s2 = Some s'" by (simp add: split_def)
      from 1(1)[OF this] obtain evs where
        "trace s' = trace ?s2 @ evs" "list_all is_poll evs" by blast
      then show ?thesis by (intro exI[of _ "[?r, ?m] @ evs"]) simp
    qed
  qed
qed

lemma waitLoop_never:
  assumes low: "\<And>k. \<not> pin_in E SDO k" and top: "tMillis + READING_TIMEOUT_MILLIS = - 1"
  shows "waitLoop E tMillis s = None"
proof (rule ccontr)
  assume "waitLoop E tMillis s \<noteq> None"
  then obtain s' where r: "waitLoop E tMillis s = Some s'" by auto
  have "\<not> ((\<forall>k. \<not> pin_in E SDO k) \<and> tMillis + READING_TIMEOUT_MILLIS = - 1)"
    using r
  proof (induction rule: waitLoop.raw_induct[rotated, consumes 1])
    case (1 waitLoop E tMillis s s')
    then show ?case by (auto simp: split_def split: if_splits)
  qed
  with low top show False by simp
qed

lemma waitSDO_trace:
  "waitSDO E s = Some s' \<Longrightarrow> \<exists>evs. trace s' = trace s @ evs \<and> list_all is_poll evs"
  by (auto simp: waitSDO_def split_def dest!: waitLoop_trace)

lemma waitSDO_live: "sdo_live E \<Longrightarrow> \<exists>s'. waitSDO E s = Some s'"
proof -
  assume "sdo_live E"
  then obtain m where
    "pin_in E SDO (pin_reads s SDO + m) \<or>
     millis_in E (millis_reads s) + READING_TIMEOUT_MILLIS < millis_in E (Suc (millis_reads s) + m)"
    unfolding sdo_live_def by blast
  then show ?thesis
    unfolding waitSDO_def split_def
    by (intro waitLoop_terminates[where m = m]) simp
qed

subsection \<open>The frame\<close>

lemma and_bit_test: "(x AND 2 ^ i \<noteq> 0) = bit x i" for x :: u16
  by (simp add: bit_iff_and_push_bit_not_eq_0 push_bit_of_1)

lemma shiftBits_fst:
  "fst (shiftBits E n sdi sii acc s) = shift_in acc (samples E (pin_reads s SDO) n)"
  by (induction n arbitrary: acc s) (simp_all add: samples_Suc split_def Let_def)

lemma shiftBits_trace:
  "trace (snd (shiftBits E n sdi sii acc s)) =
     trace s @ frame_events sdi sii n (samples E (pin_reads s SDO) n)"
  by (induction n arbitrary: acc s)
     (simp_all add: samples_Suc split_def Let_def cycle_events_def and_bit_test)

lemma shiftBits_pin_reads:
  "pin_reads (snd (shiftBits E n sdi sii acc s)) = (pin_reads s)(SDO := pin_reads s SDO + n)"
  by (induction n arbitrary: acc s) (simp_all add: split_def Let_def)

lemma shiftBits_millis_reads:
  "millis_reads (snd (shiftBits E n sdi sii acc s)) = millis_reads s"
  by (induction n arbitrary: acc s) (simp_all add: split_def Let_def)

lemma shiftOut_eq:
  "shiftOut E v a s =
     (case waitSDO E (emit (ShiftOutCall v a) s) of
        None \<Rightarrow> None
      | Some s1 \<Rightarrow>
          Some (response_byte (samples E (pin_reads s1 SDO) 11),
                emit (ShiftOutReturn (response_byte (samples E (pin_reads s1 SDO) 11)))
                  (snd (shiftBits E 11 (push_bit 2 (ucast v)) (push_bit 2 (ucast a)) 0 s1))))"
  by (simp add: shiftOut_def split_def Let_def response_byte_def shiftBits_fst
      split: option.splits)

lemma shiftOut_live: "sdo_live E \<Longrightarrow> \<exists>r s'. shiftOut E v a s = Some (r, s')"
  using waitSDO_live[of E "emit (ShiftOutCall v a) s"] by (auto simp: shiftOut_eq)

lemma shiftOut_post:
  assumes "shiftOut E v a s = Some (r, s')"
  shows "transactions (trace s') = transactions (trace s) @ [(v, a)]"
    and "responses (trace s') = responses (trace s) @ [r]"
  using assms
  by (auto simp: shiftOut_eq shiftBits_trace poll_transactions poll_responses
      split: option.splits dest!: waitSDO_trace)


text \<open>
  A wait gives up: once a clock reading is above \<open>tMillis + 300\<close>, the wait has ended,
  and the call of \<open>shiftOut\<close> goes on with its frame and returns.
\<close>

lemma waitLoop_gives_up:
  assumes "tMillis + READING_TIMEOUT_MILLIS < millis_in E (millis_reads s + m)"
  shows "\<exists>s'. waitLoop E tMillis s = Some s' \<and>
           millis_reads s' \<le> millis_reads s + Suc m \<and>
           pin_reads s' SDO \<le> pin_reads s SDO + Suc m"
  using assms
proof (induction m arbitrary: s)
  case 0
  then show ?case by (subst waitLoop_unfold) simp
next
  case (Suc m)
  let ?s2 = "snd (millis E (snd (digitalRead E SDO s)))"
  have "\<exists>s'. waitLoop E tMillis ?s2 = Some s' \<and>
           millis_reads s' \<le> millis_reads ?s2 + Suc m \<and>
           pin_reads s' SDO \<le> pin_reads ?s2 SDO + Suc m"
    using Suc.prems by (intro Suc.IH) simp
  then show ?case by (subst waitLoop_unfold) auto
qed

lemma shiftOut_gives_up:
  assumes "millis_in E (millis_reads s) + READING_TIMEOUT_MILLIS
             < millis_in E (Suc (millis_reads s) + m)"
  shows "\<exists>r s'. shiftOut E v a s = Some (r, s') \<and>
           millis_reads s' \<le> millis_reads s + m + 2 \<and>
           pin_reads s' SDO \<le> pin_reads s SDO + m + 12"
proof -
  let ?s0 = "snd (millis E (emit (ShiftOutCall v a) s))"
  from assms have "millis_in E (millis_reads s) + READING_TIMEOUT_MILLIS
      < millis_in E (millis_reads ?s0 + m)" by simp
  from waitLoop_gives_up[OF this] obtain s1 where
    w: "waitLoop E (millis_in E (millis_reads s)) ?s0 = Some s1"
    and b: "millis_reads s1 \<le> millis_reads ?s0 + Suc m"
           "pin_reads s1 SDO \<le> pin_reads ?s0 SDO + Suc m"
    by blast
  from w have "waitSDO E (emit (ShiftOutCall v a) s) = Some s1"
    by (simp add: waitSDO_def split_def)
  then show ?thesis
    using b by (simp add: shiftOut_eq shiftBits_pin_reads shiftBits_millis_reads)
qed

lemma shiftOut_samples:
  assumes "shiftOut E v a s = Some (r, s')"
  shows "\<exists>s1. waitSDO E (emit (ShiftOutCall v a) s) = Some s1 \<and>
           r = response_byte (samples E (pin_reads s1 SDO) 11) \<and>
           lastn 11 (sdo_reads (trace s')) = samples E (pin_reads s1 SDO) 11"
proof -
  from assms obtain s1 where w: "waitSDO E (emit (ShiftOutCall v a) s) = Some s1"
    and r: "r = response_byte (samples E (pin_reads s1 SDO) 11)"
    and s': "s' = emit (ShiftOutReturn r)
                  (snd (shiftBits E 11 (push_bit 2 (ucast v)) (push_bit 2 (ucast a)) 0 s1))"
    by (auto simp: shiftOut_eq split: option.splits)
  have "sdo_reads (trace s') = sdo_reads (trace s1) @ samples E (pin_reads s1 SDO) 11"
    by (simp add: s' shiftBits_trace frame_sdo_reads)
  then show ?thesis using w r by (simp add: lastn_append)
qed

lemma waitSDO_alt:
  "waitSDO E_alt (emit e s_init) =
     Some \<lparr>pin_reads = (\<lambda>p. 0)(SDO := 1), millis_reads = 1,
           trace = [e, Millis 0, DigitalRead SDO True]\<rparr>"
  by (simp add: waitSDO_def split_def waitLoop_unfold E_alt_def s_init_def emit_def
      millis_def digitalRead_def Let_def)

lemma samples_alt: "response_byte (samples E_alt (Suc 0) 11) = 0xAA"
  by code_simp

subsection \<open>Claims on shiftOut\<close>

text \<open>
  C1. For every pair of bytes, a call of \<open>shiftOut\<close> whose wait for SDO has ended runs
  exactly 11 clock cycles. In cycle \<open>i\<close>, from 10 down to 0, it writes bit \<open>i\<close> of the value
  shifted left by 2 to SDI and bit \<open>i\<close> of the address shifted left by 2 to SII, reads SDO
  once, and only then pulses SCI high and low. It returns the 11 samples, shifted in most
  significant first, shifted right by 2 and cut to 8 bits. The clock readings do not occur
  in the frame or in the result.
\<close>

theorem shiftOut_frame:
  assumes "waitSDO E (emit (ShiftOutCall aValue aAddress) s) = Some s1"
  shows "\<exists>s2. shiftOut E aValue aAddress s =
            Some (response_byte (samples E (pin_reads s1 SDO) 11), s2) \<and>
          trace s2 = trace s1 @
            frame_events (push_bit 2 (ucast aValue)) (push_bit 2 (ucast aAddress)) 11
              (samples E (pin_reads s1 SDO) 11) @
            [ShiftOutReturn (response_byte (samples E (pin_reads s1 SDO) 11))] \<and>
          count_list (trace s2) (DigitalWrite SCI True) =
            count_list (trace s) (DigitalWrite SCI True) + 11 \<and>
          count_list (trace s2) (DigitalWrite SCI False) =
            count_list (trace s) (DigitalWrite SCI False) + 11"
proof -
  from waitSDO_trace[OF assms] obtain evs where
    evs: "trace s1 = trace s @ [ShiftOutCall aValue aAddress] @ evs" "list_all is_poll evs"
    by auto
  show ?thesis
    using assms evs
    by (simp add: shiftOut_eq shiftBits_trace frame_pulses poll_no_write)
qed

theorem shiftOut_frame_witness:
  "waitSDO E_alt (emit (ShiftOutCall 0x08 0x4C) s_init) =
     Some \<lparr>pin_reads = (\<lambda>p. 0)(SDO := 1), millis_reads = 1,
           trace = [ShiftOutCall 0x08 0x4C, Millis 0, DigitalRead SDO True]\<rparr> \<and>
   (\<exists>s2. shiftOut E_alt 0x08 0x4C s_init = Some (0xAA, s2) \<and>
      count_list (trace s2) (DigitalWrite SCI True) = 11 \<and>
      count_list (trace s2) (DigitalWrite SCI False) = 11)"
proof -
  let ?s1 = "\<lparr>pin_reads = (\<lambda>p. 0)(SDO := 1), millis_reads = 1,
           trace = [ShiftOutCall 0x08 0x4C, Millis 0, DigitalRead SDO True]\<rparr>"
  have w: "waitSDO E_alt (emit (ShiftOutCall 0x08 0x4C) s_init) = Some ?s1"
    by (rule waitSDO_alt)
  from shiftOut_frame[OF w] show ?thesis
    using w by (auto simp: samples_alt s_init_def)
qed

text \<open>
  C10. The byte that \<open>shiftOut\<close> returns is a function of the 11 levels read on SDO in its
  frame, the last 11 reads of SDO in its trace: two calls that read the same 11 levels
  return the same byte, whatever their arguments, environments and states.
\<close>

theorem shiftOut_depends_on_samples:
  assumes "shiftOut E v a s = Some (r, s')"
    and "shiftOut E' v' a' t = Some (r', t')"
    and "lastn 11 (sdo_reads (trace s')) = lastn 11 (sdo_reads (trace t'))"
  shows "r = r'"
  using shiftOut_samples[OF assms(1)] shiftOut_samples[OF assms(2)] assms(3) by auto

theorem shiftOut_depends_on_samples_witness:
  "\<exists>r s' r' t'. shiftOut E_alt 0x08 0x4C s_init = Some (r, s') \<and>
      shiftOut E_alt 0x00 0x6C s_init = Some (r', t') \<and>
      lastn 11 (sdo_reads (trace s')) = lastn 11 (sdo_reads (trace t')) \<and> r = r'"
proof -
  obtain r s' where 1: "shiftOut E_alt 0x08 0x4C s_init = Some (r, s')"
    by (auto simp: shiftOut_eq waitSDO_alt)
  obtain r' t' where 2: "shiftOut E_alt 0x00 0x6C s_init = Some (r', t')"
    by (auto simp: shiftOut_eq waitSDO_alt)
  have 3: "lastn 11 (sdo_reads (trace s')) = lastn 11 (sdo_reads (trace t'))"
    using shiftOut_samples[OF 1] shiftOut_samples[OF 2] by (auto simp: waitSDO_alt)
  from shiftOut_depends_on_samples[OF 1 2 3] 1 2 3 show ?thesis by blast
qed

text \<open>
  C2. Every call of \<open>shiftOut\<close> starts with a wait for SDO that is meant to give up
  after the timeout, so that the call returns even when SDO stays low. By
  \<open>shiftOut_gives_up\<close> it does whenever a clock reading above \<open>tMillis + 300\<close> comes.
  But the code compares \<open>millis()\<close> with the sum \<open>tMillis + 300\<close>, which wraps: when
  the wait starts at clock reading \<open>2^32 - 301\<close> the sum is \<open>2^32 - 1\<close>, no reading is
  greater, and with SDO low the call never returns.
\<close>

theorem shiftOut_hangs_at_clock_wrap:
  "shiftOut E_wrap aValue aAddress s_init = None"
proof -
  have "waitLoop E_wrap 0xFFFFFED3 s = None" for s
    by (rule waitLoop_never) (simp_all add: E_wrap_def READING_TIMEOUT_MILLIS_def)
  then show ?thesis
    by (simp add: shiftOut_eq waitSDO_def split_def E_wrap_def s_init_def)
qed


subsection \<open>The operations on the target\<close>

lemma shiftOut_tx:
  "shiftOut E v a s = Some (r, s') \<Longrightarrow>
     transactions (trace s') = transactions (trace s) @ [(v, a)]"
  by (rule shiftOut_post)

lemma shiftOut_tx_resp:
  "shiftOut E v a s = Some (r, s') \<Longrightarrow>
     transactions (trace s') = transactions (trace s) @ [(v, a)] \<and>
     responses (trace s') = responses (trace s) @ [r]"
  by (simp add: shiftOut_post)

lemma waitSDO_tx: "waitSDO E s = Some s' \<Longrightarrow> transactions (trace s') = transactions (trace s)"
  by (auto dest!: waitSDO_trace simp: poll_transactions)

lemma shiftOut_bind_live:
  "sdo_live E \<Longrightarrow>
     (\<exists>y. shiftOut E v a s \<bind> f = Some y) =
     (\<forall>r s'. shiftOut E v a s = Some (r, s') \<longrightarrow> (\<exists>y. f (r, s') = Some y))"
  using shiftOut_live[of E v a s] by auto

lemma waitSDO_bind_live:
  "sdo_live E \<Longrightarrow>
     (\<exists>y. waitSDO E s \<bind> f = Some y) =
     (\<forall>s'. waitSDO E s = Some s' \<longrightarrow> (\<exists>y. f s' = Some y))"
  using waitSDO_live[of E s] by auto

lemma readFuses_tx:
  "readFuses E s = Some s' \<Longrightarrow>
     transactions (trace s') = transactions (trace s) @ readFuses_sequence"
  by (auto simp: readFuses_def readFuses_sequence_def bind_eq_Some_conv Let_def
      dest!: shiftOut_tx)


lemma readLockBits_tx:
  "readLockBits E s = Some s' \<Longrightarrow>
     transactions (trace s') = transactions (trace s) @ readLockBits_sequence"
  by (auto simp: readLockBits_def readLockBits_sequence_def bind_eq_Some_conv Let_def
      reportLockBits_def dest!: shiftOut_tx waitSDO_tx)

lemma readLockBits_live: "sdo_live E \<Longrightarrow> \<exists>s'. readLockBits E s = Some s'"
  by (simp add: readLockBits_def Let_def shiftOut_bind_live waitSDO_bind_live)

lemma eraseFlashAndLockBits_tx:
  "eraseFlashAndLockBits E s = Some s' \<Longrightarrow>
     transactions (trace s') = transactions (trace s) @ erase_sequence"
  by (auto simp: eraseFlashAndLockBits_def erase_sequence_def bind_eq_Some_conv Let_def
      dest!: shiftOut_tx waitSDO_tx)


lemma writeFuse_tx:
  "writeFuse E addr v s = Some s' \<Longrightarrow>
     transactions (trace s') = transactions (trace s) @ write_sequence addr v"
  by (auto simp: writeFuse_def write_sequence_def bind_eq_Some_conv Let_def
      dest!: shiftOut_tx)


lemma readSignature_unfold:
  "readSignature E s =
     do {
       (_, s1) \<leftarrow> shiftOut E 0x08 0x4C s;
       (_, s2) \<leftarrow> shiftOut E 0x01 0x0C s1;
       (_, s3) \<leftarrow> shiftOut E 0x00 0x68 s2;
       (b1, s4) \<leftarrow> shiftOut E 0x00 0x6C s3;
       (_, s5) \<leftarrow> shiftOut E 0x08 0x4C s4;
       (_, s6) \<leftarrow> shiftOut E 0x02 0x0C s5;
       (_, s7) \<leftarrow> shiftOut E 0x00 0x68 s6;
       (b2, s8) \<leftarrow> shiftOut E 0x00 0x6C s7;
       Some (push_bit 8 (ucast b1) + ucast b2, s8)
     }"
proof -
  have 3: "readSignature_loop E 3 sig t = Some (sig, t)" for sig t
    by (subst readSignature_loop.simps) simp
  have 2: "readSignature_loop E 2 sig t =
     do {
       (_, s5) \<leftarrow> shiftOut E 0x08 0x4C t;
       (_, s6) \<leftarrow> shiftOut E 0x02 0x0C s5;
       (_, s7) \<leftarrow> shiftOut E 0x00 0x68 s6;
       (b2, s8) \<leftarrow> shiftOut E 0x00 0x6C s7;
       Some (push_bit 8 sig + ucast b2, s8)
     }" for sig t
    by (subst readSignature_loop.simps) (simp add: 3 split_def)
  show ?thesis
    unfolding readSignature_def
    by (subst readSignature_loop.simps) (simp add: 2 split_def)
qed

lemma readSignature_post:
  assumes "readSignature E s = Some (sig, s')"
  shows "transactions (trace s') = transactions (trace s) @ readSignature_sequence"
    and "\<exists>r1 r2 r3 b1 r5 r6 r7 b2.
           responses (trace s') = responses (trace s) @ [r1, r2, r3, b1, r5, r6, r7, b2] \<and>
           sig = push_bit 8 (ucast b1) + ucast b2"
  using assms
  by (auto simp: readSignature_unfold readSignature_sequence_def bind_eq_Some_conv
      dest!: shiftOut_tx_resp)



subsection \<open>The session\<close>

lemma waitButtonRelease_unfold:
  "waitButtonRelease E s =
     (if pin_in E START_BUTTON_PIN (pin_reads s START_BUTTON_PIN)
      then Some (snd (digitalRead E START_BUTTON_PIN s))
      else waitButtonRelease E (snd (digitalRead E START_BUTTON_PIN s)))"
  by (subst waitButtonRelease.simps) (simp add: split_def)

lemma waitButtonRelease_terminates:
  "pin_in E START_BUTTON_PIN (pin_reads s START_BUTTON_PIN + m)
   \<Longrightarrow> \<exists>s'. waitButtonRelease E s = Some s'"
proof (induction m arbitrary: s)
  case 0
  then show ?case by (subst waitButtonRelease_unfold) auto
next
  case (Suc m)
  let ?s1 = "snd (digitalRead E START_BUTTON_PIN s)"
  have "\<exists>s'. waitButtonRelease E ?s1 = Some s'"
    using Suc.prems by (intro Suc.IH) simp
  then show ?case by (subst waitButtonRelease_unfold) auto
qed

lemma waitButtonRelease_live: "button_live E \<Longrightarrow> \<exists>s'. waitButtonRelease E s = Some s'"
  unfolding button_live_def using waitButtonRelease_terminates by blast

lemma waitButtonRelease_tx:
  "waitButtonRelease E s = Some s' \<Longrightarrow> transactions (trace s') = transactions (trace s)"
proof (induction rule: waitButtonRelease.raw_induct[rotated, consumes 1])
  case (1 waitButtonRelease E s s')
  let ?s1 = "snd (digitalRead E START_BUTTON_PIN s)"
  show ?case
  proof (cases "pin_in E START_BUTTON_PIN (pin_reads s START_BUTTON_PIN)")
    case True
    with 1(2) have "s' = ?s1" by (simp add: split_def)
    then show ?thesis by simp
  next
    case False
    with 1(2) have "waitButtonRelease E ?s1 = Some s'" by (simp add: split_def)
    from 1(1)[OF this] show ?thesis by simp
  qed
qed

lemma printDeviceName_tx [simp]:
  "transactions (trace (printDeviceName sig s)) = transactions (trace s)"
  by (simp add: printDeviceName_def)

lemmas signature_defs =
  ATTINY13_def ATTINY24_def ATTINY25_def ATTINY44_def ATTINY45_def ATTINY84_def ATTINY85_def

lemmas fuse_address_defs = LFUSE_def HFUSE_def EFUSE_def

lemma isWriteDefaults_mode: "isWriteDefaults c \<longleftrightarrow> mode_of c = WriteDefaults"
  by (auto simp: isWriteDefaults_def mode_of_def)

lemma isErase_mode: "isErase c \<longleftrightarrow> mode_of c = Erase"
  by (auto simp: isErase_def mode_of_def)

lemma readOnly_mode: "(c \<noteq> CHR ''r'' \<and> c \<noteq> CHR ''R'') \<longleftrightarrow> mode_of c \<noteq> ReadOnly"
  by (auto simp: mode_of_def)

lemma writeDefaults_tx:
  assumes "writeDefaults E sig c s = Some s'"
  shows "transactions (trace s') = transactions (trace s) @
           (if mode_of c = WriteDefaults then default_writes sig else [])"
proof (cases "sig = ATTINY13")
  case True
  with assms show ?thesis
    by (auto simp: writeDefaults_def isWriteDefaults_mode default_writes_def fuse_defaults_def
        signature_defs fuse_address_defs bind_eq_Some_conv Let_def
        split: if_splits dest!: writeFuse_tx)
next
  case n13: False
  show ?thesis
  proof (cases "sig = ATTINY24 \<or> sig = ATTINY44 \<or> sig = ATTINY84 \<or>
                sig = ATTINY25 \<or> sig = ATTINY45 \<or> sig = ATTINY85")
    case True
    then have fd: "fuse_defaults sig = Some (0x62, 0xDF, Some 0xFF)"
      by (auto simp: fuse_defaults_def signature_defs)
    from assms n13 True show ?thesis
      by (auto simp: writeDefaults_def isWriteDefaults_mode default_writes_def fd
          fuse_address_defs bind_eq_Some_conv Let_def
          split: if_splits dest!: writeFuse_tx)
  next
    case False
    with n13 have fd: "fuse_defaults sig = None"
      by (auto simp: fuse_defaults_def signature_defs)
    from assms n13 False show ?thesis
      by (auto simp: writeDefaults_def default_writes_def fd bind_eq_Some_conv Let_def
          dest!: waitButtonRelease_tx)
  qed
qed



lemma programTarget_tx:
  assumes "programTarget E sig c s = Some s'"
  shows "transactions (trace s') = transactions (trace s) @
           readFuses_sequence @ readLockBits_sequence @
           (if mode_of c = Erase then erase_sequence else []) @
           (if mode_of c = WriteDefaults then default_writes sig else []) @
           (if mode_of c = ReadOnly then [] else readFuses_sequence @ readLockBits_sequence)"
proof -
  from assms obtain s1 s2 s3 s4 where
    1: "readFuses E s = Some s1" and 2: "readLockBits E s1 = Some s2"
    and 3: "(if isErase c then eraseFlashAndLockBits E s2 else Some s2) = Some s3"
    and 4: "writeDefaults E sig c s3 = Some s4"
    and 5: "(if c \<noteq> CHR ''r'' \<and> c \<noteq> CHR ''R'' then
         do {
           let s5 = Serial_println ''Fuses and lock bits will be read again to check values...'' s4;
           s6 \<leftarrow> readFuses E s5;
           readLockBits E s6
         }
       else Some s4) = Some s'"
    by (auto simp: programTarget_def bind_eq_Some_conv)
  have t3: "transactions (trace s3) = transactions (trace s2) @
      (if mode_of c = Erase then erase_sequence else [])"
    using 3 by (auto simp: isErase_mode split: if_splits dest!: eraseFlashAndLockBits_tx)
  have t5: "transactions (trace s') = transactions (trace s4) @
      (if mode_of c = ReadOnly then [] else readFuses_sequence @ readLockBits_sequence)"
    using 5 by (auto simp: readOnly_mode bind_eq_Some_conv Let_def split: if_splits
        dest!: readFuses_tx readLockBits_tx)
  show ?thesis
    using readFuses_tx[OF 1] readLockBits_tx[OF 2] t3 writeDefaults_tx[OF 4] t5 by simp
qed


lemma powerUp_tx [simp]: "transactions (trace (powerUp s)) = transactions (trace s)"
  by (simp add: powerUp_def Let_def)

lemma powerDown_trace: "trace (powerDown s) = trace s @ powerDown_events"
  by (simp add: powerDown_def powerDown_events_def Let_def)

lemma powerDown_events_tx [simp]: "transactions powerDown_events = []"
  by (simp add: powerDown_events_def)

lemma session_post:
  assumes "session E c s = Some s'"
  shows "\<exists>sig s1 s5. readSignature E (powerUp s) = Some (sig, s1) \<and>
           s' = powerDown s5 \<and>
           transactions (trace s5) = transactions (trace s) @ session_sequence sig c"
proof -
  from assms obtain sig s1 s5 where
    1: "readSignature E (powerUp s) = Some (sig, s1)"
    and 2: "programTarget E sig c
              (Serial_println_HEX (unat sig)
                (Serial_print (CHR 0x09 # ''Signature is: '')
                  (Serial_println ''Reading complete..'' s1))) = Some s5"
    and 3: "s' = powerDown s5"
    by (auto simp: session_def bind_eq_Some_conv Let_def)
  have "transactions (trace s5) = transactions (trace s) @ session_sequence sig c"
    using readSignature_post(1)[OF 1] programTarget_tx[OF 2]
    by (simp add: session_sequence_def)
  with 1 3 show ?thesis by blast
qed



subsection \<open>The wire\<close>

lemma clocked_append [simp]:
  "clocked L (xs @ ys) = clocked L xs @ clocked (levels L xs) ys"
  by (induction xs arbitrary: L) simp_all

lemma levels_append [simp]: "levels L (xs @ ys) = levels (levels L xs) ys"
  by (induction xs arbitrary: L) simp_all

lemma wire_append:
  "wire (xs @ ys) = wire xs @ clocked (levels (False, False, False) xs) ys"
  by (simp add: wire_def)

lemma wire_out_append:
  "wire_out (xs @ ys) =
     wire_out xs @ map (\<lambda>(d, i, q). (d, i)) (clocked (levels (False, False, False) xs) ys)"
  by (simp add: wire_out_def wire_append)

lemma clocked_poll: "list_all is_poll evs \<Longrightarrow> clocked L evs = []"
proof (induction evs arbitrary: L)
  case Nil
  then show ?case by simp
next
  case (Cons e evs)
  then show ?case by (cases e) simp_all
qed

lemma clocked_cycle:
  "clocked L (cycle_events sdi sii k b) = [(bit sdi k, bit sii k, b)]"
  by (cases L) (simp add: cycle_events_def)

lemma clocked_frame:
  "length bs = n \<Longrightarrow>
     clocked L (frame_events sdi sii n bs) =
       map (\<lambda>(k, b). (bit sdi k, bit sii k, b)) (zip (rev [0..<n]) bs)"
proof (induction sdi sii n bs arbitrary: L rule: frame_events.induct)
  case (1 sdi sii i b bs)
  then show ?case by (simp add: clocked_cycle)
qed simp_all

lemma frame_cycles_out:
  "length bs = 11 \<Longrightarrow> map (\<lambda>(d, i, q). (d, i)) (frame_cycles v a bs) = frame_out (v, a)"
proof -
  assume "length bs = 11"
  then have "map fst (zip (rev [0..<11]) bs) = rev [0..<11]" by simp
  then have "map ((\<lambda>k. (bit (push_bit 2 (ucast v :: u16)) k, bit (push_bit 2 (ucast a :: u16)) k)) \<circ> fst)
         (zip (rev [0..<11]) bs) = frame_out (v, a)"
    unfolding frame_out_def map_map[symmetric] by simp
  then show ?thesis
    by (simp add: frame_cycles_def comp_def split_def)
qed

lemma shiftOut_wire:
  assumes "shiftOut E v a s = Some (r, s')"
  shows "\<exists>bs. length bs = 11 \<and> r = response_byte bs \<and>
           wire (trace s') = wire (trace s) @ frame_cycles v a bs"
proof -
  from assms obtain s1 where w: "waitSDO E (emit (ShiftOutCall v a) s) = Some s1"
    and r: "r = response_byte (samples E (pin_reads s1 SDO) 11)"
    and s': "s' = emit (ShiftOutReturn r)
                  (snd (shiftBits E 11 (push_bit 2 (ucast v)) (push_bit 2 (ucast a)) 0 s1))"
    by (auto simp: shiftOut_eq split: option.splits)
  from waitSDO_trace[OF w] obtain evs where
    evs: "trace s1 = trace s @ [ShiftOutCall v a] @ evs" "list_all is_poll evs"
    by auto
  let ?bs = "samples E (pin_reads s1 SDO) 11"
  have "wire (trace s') = wire (trace s) @ frame_cycles v a ?bs"
    by (simp add: s' shiftBits_trace evs wire_def clocked_poll clocked_frame frame_cycles_def)
  with r show ?thesis by (intro exI[of _ ?bs]) simp
qed

lemma shiftOut_wire_out:
  assumes "shiftOut E v a s = Some (r, s')"
  shows "wire_out (trace s') = wire_out (trace s) @ frame_out (v, a)"
  using shiftOut_wire[OF assms] by (auto simp: wire_out_def frame_cycles_out)

lemma waitSDO_wire: "waitSDO E s = Some s' \<Longrightarrow> wire (trace s') = wire (trace s)"
  by (auto dest!: waitSDO_trace simp: wire_def clocked_poll)

lemma waitSDO_wire_out: "waitSDO E s = Some s' \<Longrightarrow> wire_out (trace s') = wire_out (trace s)"
  by (simp add: wire_out_def waitSDO_wire)

lemma shift_in_bits:
  "shift_in acc (map (bit w) (rev [0..<n])) = push_bit n acc OR take_bit n w"
proof (induction n arbitrary: acc)
  case 0
  then show ?case by simp
next
  case (Suc n)
  have "push_bit n (push_bit 1 acc OR (if bit w n then 1 else 0)) OR take_bit n w =
        push_bit (Suc n) acc OR take_bit (Suc n) w"
    by (rule bit_eqI) (auto simp: bit_simps less_Suc_eq)
  then show ?case by (simp add: Suc)
qed

lemma response_byte_bits:
  "response_byte (map (bit (push_bit 2 (ucast v :: u16))) (rev [0..<11])) = v"
proof -
  have "(ucast (drop_bit 2 (take_bit 11 (push_bit 2 (ucast v :: u16)))) :: u8) = v"
    by (rule bit_eqI) (auto simp: bit_simps)
  then show ?thesis by (simp add: response_byte_def shift_in_bits)
qed

lemma frame_out_11:
  "\<exists>c0 c1 c2 c3 c4 c5 c6 c7 c8 c9 c10. frame_out t = [c0, c1, c2, c3, c4, c5, c6, c7, c8, c9, c10]"
proof -
  have "rev [0..<11] = [10, 9, 8, 7, 6, 5, 4, 3, 2, 1, 0 :: nat]" by code_simp
  then show ?thesis by (simp add: frame_out_def)
qed

lemma decode_frame_out: "decode_frames (frame_out t @ cs) = t # decode_frames cs"
proof -
  obtain c0 c1 c2 c3 c4 c5 c6 c7 c8 c9 c10 where
    f: "frame_out t = [c0, c1, c2, c3, c4, c5, c6, c7, c8, c9, c10]"
    using frame_out_11[of t] by auto
  have "map fst (frame_out t) = map (bit (push_bit 2 (ucast (fst t) :: u16))) (rev [0..<11])"
       "map snd (frame_out t) = map (bit (push_bit 2 (ucast (snd t) :: u16))) (rev [0..<11])"
    by (simp_all add: frame_out_def comp_def)
  then have "response_byte (map fst (frame_out t)) = fst t"
            "response_byte (map snd (frame_out t)) = snd t"
    by (simp_all add: response_byte_bits)
  then show ?thesis
    unfolding f by simp
qed

lemma decode_frames_out: "decode_frames (concat (map frame_out ts)) = ts"
  by (induction ts) (simp_all add: decode_frame_out)

lemma new_frames_eq:
  "wire_out (trace s') = wire_out (trace s) @ concat (map frame_out ts) \<Longrightarrow> new_frames s s' = ts"
  by (simp add: new_frames_def decode_frames_out)

lemma clocked_quiet:
  "list_all (\<lambda>e. e \<noteq> DigitalWrite SCI True) evs \<Longrightarrow> clocked L evs = []"
  by (induction evs arbitrary: L) simp_all

lemma wire_quiet [simp]:
  "list_all (\<lambda>e. e \<noteq> DigitalWrite SCI True) evs \<Longrightarrow> wire (tr @ evs) = wire tr"
  by (simp add: wire_append clocked_quiet)

lemma wire_out_quiet [simp]:
  "list_all (\<lambda>e. e \<noteq> DigitalWrite SCI True) evs \<Longrightarrow> wire_out (tr @ evs) = wire_out tr"
  by (simp add: wire_out_def)

lemma readFuses_wire:
  "readFuses E s = Some s' \<Longrightarrow>
     wire_out (trace s') = wire_out (trace s) @ concat (map frame_out readFuses_sequence)"
  by (auto simp: readFuses_def readFuses_sequence_def bind_eq_Some_conv Let_def
      dest!: shiftOut_wire_out)

lemma readLockBits_wire:
  "readLockBits E s = Some s' \<Longrightarrow>
     wire_out (trace s') = wire_out (trace s) @ concat (map frame_out readLockBits_sequence)"
  by (auto simp: readLockBits_def readLockBits_sequence_def bind_eq_Some_conv Let_def
      reportLockBits_def dest!: shiftOut_wire_out waitSDO_wire_out)

lemma eraseFlashAndLockBits_wire:
  "eraseFlashAndLockBits E s = Some s' \<Longrightarrow>
     wire_out (trace s') = wire_out (trace s) @ concat (map frame_out erase_sequence)"
  by (auto simp: eraseFlashAndLockBits_def erase_sequence_def bind_eq_Some_conv Let_def
      dest!: shiftOut_wire_out waitSDO_wire_out)

lemma writeFuse_wire:
  "writeFuse E addr v s = Some s' \<Longrightarrow>
     wire_out (trace s') = wire_out (trace s) @ concat (map frame_out (write_sequence addr v))"
  by (auto simp: writeFuse_def write_sequence_def bind_eq_Some_conv Let_def
      dest!: shiftOut_wire_out)

lemma readSignature_wire_out:
  "readSignature E s = Some (sig, s') \<Longrightarrow>
     wire_out (trace s') = wire_out (trace s) @ concat (map frame_out readSignature_sequence)"
  by (auto simp: readSignature_unfold readSignature_sequence_def bind_eq_Some_conv
      dest!: shiftOut_wire_out)


lemma waitButtonRelease_same:
  "waitButtonRelease E s = Some s' \<Longrightarrow>
     wire_out (trace s') = wire_out (trace s) \<and> millis_reads s' = millis_reads s"
proof (induction rule: waitButtonRelease.raw_induct[rotated, consumes 1])
  case (1 waitButtonRelease E s s')
  let ?s1 = "snd (digitalRead E START_BUTTON_PIN s)"
  show ?case
  proof (cases "pin_in E START_BUTTON_PIN (pin_reads s START_BUTTON_PIN)")
    case True
    with 1(2) have "s' = ?s1" by (simp add: split_def)
    then show ?thesis by simp
  next
    case False
    with 1(2) have "waitButtonRelease E ?s1 = Some s'" by (simp add: split_def)
    from 1(1)[OF this] show ?thesis by simp
  qed
qed

lemma printDeviceName_wire [simp]:
  "wire_out (trace (printDeviceName sig s)) = wire_out (trace s)"
  by (simp add: printDeviceName_def)

lemma writeDefaults_wire:
  assumes "writeDefaults E sig c s = Some s'"
  shows "wire_out (trace s') = wire_out (trace s) @
           concat (map frame_out (if mode_of c = WriteDefaults then default_writes sig else []))"
proof (cases "sig = ATTINY13")
  case True
  with assms show ?thesis
    by (auto simp: writeDefaults_def isWriteDefaults_mode default_writes_def fuse_defaults_def
        signature_defs fuse_address_defs bind_eq_Some_conv Let_def
        split: if_splits dest!: writeFuse_wire)
next
  case n13: False
  show ?thesis
  proof (cases "sig = ATTINY24 \<or> sig = ATTINY44 \<or> sig = ATTINY84 \<or>
                sig = ATTINY25 \<or> sig = ATTINY45 \<or> sig = ATTINY85")
    case True
    then have fd: "fuse_defaults sig = Some (0x62, 0xDF, Some 0xFF)"
      by (auto simp: fuse_defaults_def signature_defs)
    from assms n13 True show ?thesis
      by (auto simp: writeDefaults_def isWriteDefaults_mode default_writes_def fd
          fuse_address_defs bind_eq_Some_conv Let_def
          split: if_splits dest!: writeFuse_wire)
  next
    case False
    with n13 have fd: "fuse_defaults sig = None"
      by (auto simp: fuse_defaults_def signature_defs)
    from assms n13 False show ?thesis
      by (auto simp: writeDefaults_def default_writes_def fd bind_eq_Some_conv Let_def
          dest!: waitButtonRelease_same)
  qed
qed

lemma programTarget_wire:
  assumes "programTarget E sig c s = Some s'"
  shows "wire_out (trace s') = wire_out (trace s) @
           concat (map frame_out
             (readFuses_sequence @ readLockBits_sequence @
              (if mode_of c = Erase then erase_sequence else []) @
              (if mode_of c = WriteDefaults then default_writes sig else []) @
              (if mode_of c = ReadOnly then [] else readFuses_sequence @ readLockBits_sequence)))"
proof -
  from assms obtain s1 s2 s3 s4 where
    1: "readFuses E s = Some s1" and 2: "readLockBits E s1 = Some s2"
    and 3: "(if isErase c then eraseFlashAndLockBits E s2 else Some s2) = Some s3"
    and 4: "writeDefaults E sig c s3 = Some s4"
    and 5: "(if c \<noteq> CHR ''r'' \<and> c \<noteq> CHR ''R'' then
         do {
           let s5 = Serial_println ''Fuses and lock bits will be read again to check values...'' s4;
           s6 \<leftarrow> readFuses E s5;
           readLockBits E s6
         }
       else Some s4) = Some s'"
    by (auto simp: programTarget_def bind_eq_Some_conv)
  have t3: "wire_out (trace s3) = wire_out (trace s2) @
      concat (map frame_out (if mode_of c = Erase then erase_sequence else []))"
    using 3 by (auto simp: isErase_mode split: if_splits dest!: eraseFlashAndLockBits_wire)
  have t5: "wire_out (trace s') = wire_out (trace s4) @
      concat (map frame_out
        (if mode_of c = ReadOnly then [] else readFuses_sequence @ readLockBits_sequence))"
    using 5 by (auto simp: readOnly_mode bind_eq_Some_conv Let_def split: if_splits
        dest!: readFuses_wire readLockBits_wire)
  show ?thesis
    using readFuses_wire[OF 1] readLockBits_wire[OF 2] t3 writeDefaults_wire[OF 4] t5 by simp
qed

lemma powerUp_wire [simp]: "wire_out (trace (powerUp s)) = wire_out (trace s)"
  by (simp add: powerUp_def Let_def)

lemma powerDown_wire [simp]: "wire_out (trace (powerDown s)) = wire_out (trace s)"
  by (simp add: powerDown_def Let_def)

lemma session_wire:
  assumes "session E c s = Some s'"
  shows "\<exists>sig s1. readSignature E (powerUp s) = Some (sig, s1) \<and>
           wire_out (trace s') = wire_out (trace s) @
             concat (map frame_out (session_sequence sig c))"
proof -
  from assms obtain sig s1 s5 where
    1: "readSignature E (powerUp s) = Some (sig, s1)"
    and 2: "programTarget E sig c
              (Serial_println_HEX (unat sig)
                (Serial_print (CHR 0x09 # ''Signature is: '')
                  (Serial_println ''Reading complete..'' s1))) = Some s5"
    and 3: "s' = powerDown s5"
    by (auto simp: session_def bind_eq_Some_conv Let_def)
  have "wire_out (trace s') = wire_out (trace s) @
          concat (map frame_out (session_sequence sig c))"
    using readSignature_wire_out[OF 1] programTarget_wire[OF 2]
    by (simp add: 3 session_sequence_def)
  with 1 show ?thesis by blast
qed


subsection \<open>Waits under a clock that advances\<close>

lemma clock_next:
  assumes "\<forall>k. millis_in E (Suc k) = millis_in E k \<or> millis_in E (Suc k) = millis_in E k + 1"
    and "millis_in E (k + j) \<noteq> millis_in E k"
  shows "\<exists>i. millis_in E (k + i) = millis_in E k + 1"
  using assms(2)
proof (induction j arbitrary: k)
  case 0
  then show ?case by simp
next
  case (Suc j)
  show ?case
  proof (cases "millis_in E (Suc k) = millis_in E k")
    case True
    with Suc.prems have "millis_in E (Suc k + j) \<noteq> millis_in E (Suc k)" by simp
    from Suc.IH[OF this] obtain i where "millis_in E (Suc k + i) = millis_in E (Suc k) + 1"
      by blast
    with True have "millis_in E (k + Suc i) = millis_in E k + 1" by simp
    then show ?thesis by blast
  next
    case False
    with assms(1) have "millis_in E (k + 1) = millis_in E k + 1" by auto
    then show ?thesis by blast
  qed
qed

lemma clock_reach:
  assumes "clock_steps E"
  shows "\<exists>j. millis_in E (k + j) = millis_in E k + of_nat d"
proof (induction d)
  case 0
  have "millis_in E (k + 0) = millis_in E k + of_nat 0" by simp
  then show ?case by blast
next
  case (Suc d)
  then obtain j where j: "millis_in E (k + j) = millis_in E k + of_nat d" by blast
  from assms obtain j' where "millis_in E (k + j + j') \<noteq> millis_in E (k + j)"
    unfolding clock_steps_def by blast
  with assms clock_next[of E "k + j" j'] obtain i where
    "millis_in E (k + j + i) = millis_in E (k + j) + 1"
    unfolding clock_steps_def by blast
  with j have "millis_in E (k + (j + i)) = millis_in E k + of_nat (Suc d)"
    by (simp add: add.assoc)
  then show ?case by blast
qed

lemma clock_step_le:
  assumes "\<forall>k. millis_in E (Suc k) = millis_in E k \<or> millis_in E (Suc k) = millis_in E k + 1"
  shows "unat (millis_in E (Suc k)) \<le> unat (millis_in E k) + 1"
proof -
  have "unat (x + 1) \<le> unat x + 1" for x :: u32
    by (simp add: unat_word_ariths)
  with assms show ?thesis by (metis le_add1)
qed

lemma waitLoop_clock:
  assumes steps: "\<forall>k. millis_in E (Suc k) = millis_in E k \<or> millis_in E (Suc k) = millis_in E k + 1"
    and room: "unat tMillis + 302 < 4294967296"
    and late: "tMillis + READING_TIMEOUT_MILLIS < millis_in E (millis_reads s + m)"
    and inv: "clock_now E s \<le> unat tMillis + 301"
  shows "\<exists>s'. waitLoop E tMillis s = Some s' \<and> clock_now E s' \<le> unat tMillis + 302"
  using late inv
proof (induction m arbitrary: s)
  case 0
  let ?s1 = "snd (digitalRead E SDO s)"
  let ?s2 = "snd (millis E ?s1)"
  have n2: "clock_now E ?s2 \<le> unat tMillis + 302"
    using clock_step_le[OF steps, of "millis_reads s"] "0.prems"(2)
    by (simp add: clock_now_def)
  have n1: "clock_now E ?s1 \<le> unat tMillis + 302"
    using "0.prems"(2) by (simp add: clock_now_def)
  from "0.prems"(1) n1 n2 show ?case
    by (subst waitLoop_unfold) simp
next
  case (Suc m)
  let ?s1 = "snd (digitalRead E SDO s)"
  let ?s2 = "snd (millis E ?s1)"
  have n1: "clock_now E ?s1 \<le> unat tMillis + 302"
    using Suc.prems(2) by (simp add: clock_now_def)
  have n2: "clock_now E ?s2 \<le> unat tMillis + 302"
    using clock_step_le[OF steps, of "millis_reads s"] Suc.prems(2)
    by (simp add: clock_now_def)
  show ?case
  proof (cases "tMillis + READING_TIMEOUT_MILLIS < millis_in E (millis_reads s)")
    case True
    with n1 n2 show ?thesis by (subst waitLoop_unfold) simp
  next
    case False
    have "unat (tMillis + READING_TIMEOUT_MILLIS) = unat tMillis + 300"
      using room by (simp add: READING_TIMEOUT_MILLIS_def unat_word_ariths)
    with False have "unat (millis_in E (millis_reads s)) \<le> unat tMillis + 300"
      by (simp add: word_less_nat_alt)
    then have i2: "clock_now E ?s2 \<le> unat tMillis + 301"
      using clock_step_le[OF steps, of "millis_reads s"] by (simp add: clock_now_def)
    have l2: "tMillis + READING_TIMEOUT_MILLIS < millis_in E (millis_reads ?s2 + m)"
      using Suc.prems(1) by simp
    from Suc.IH[OF l2 i2] False n1 show ?thesis
      by (subst waitLoop_unfold) simp
  qed
qed

lemma waitSDO_clock:
  assumes "clock_steps E" and "clock_now E s + 302 < 4294967296"
  shows "\<exists>s'. waitSDO E s = Some s' \<and> clock_now E s' \<le> clock_now E s + 302"
proof -
  let ?t = "millis_in E (millis_reads s)"
  let ?s1 = "snd (millis E s)"
  have steps: "\<forall>k. millis_in E (Suc k) = millis_in E k \<or> millis_in E (Suc k) = millis_in E k + 1"
    using assms(1) by (simp add: clock_steps_def)
  have room: "unat ?t + 302 < 4294967296"
    using assms(2) by (simp add: clock_now_def)
  from clock_reach[OF assms(1), of "millis_reads s" 301] obtain j where
    j: "millis_in E (millis_reads s + j) = ?t + 301" by auto
  have u: "unat (?t + 301) = unat ?t + 301" "unat (?t + 300) = unat ?t + 300"
    using room by (simp_all add: unat_word_ariths)
  then have ne: "?t + 301 \<noteq> ?t" by (metis add_cancel_right_right zero_neq_numeral)
  with j obtain m where m: "j = Suc m" by (cases j) auto
  have late: "?t + READING_TIMEOUT_MILLIS < millis_in E (millis_reads ?s1 + m)"
    using j m u by (simp add: READING_TIMEOUT_MILLIS_def word_less_nat_alt)
  have inv: "clock_now E ?s1 \<le> unat ?t + 301"
    using clock_step_le[OF steps, of "millis_reads s"] by (simp add: clock_now_def)
  from waitLoop_clock[OF steps room late inv] show ?thesis
    by (simp add: waitSDO_def split_def clock_now_def)
qed

lemma shiftOut_clock:
  assumes "clock_steps E" and "clock_now E s + 302 < 4294967296"
  shows "\<exists>r s'. shiftOut E v a s = Some (r, s') \<and> clock_now E s' \<le> clock_now E s + 302"
proof -
  have "clock_now E (emit (ShiftOutCall v a) s) = clock_now E s"
    by (simp add: clock_now_def)
  with waitSDO_clock[OF assms(1), of "emit (ShiftOutCall v a) s"] assms(2)
  obtain s1 where "waitSDO E (emit (ShiftOutCall v a) s) = Some s1"
    "clock_now E s1 \<le> clock_now E s + 302" by auto
  then show ?thesis
    by (simp add: shiftOut_eq clock_now_def shiftBits_millis_reads)
qed

lemma clock_now_simps [simp]:
  "clock_now E (emit e s) = clock_now E s"
  "clock_now E (Serial_print t s) = clock_now E s"
  "clock_now E (Serial_println t s) = clock_now E s"
  "clock_now E (Serial_print_HEX n s) = clock_now E s"
  "clock_now E (Serial_println_HEX n s) = clock_now E s"
  "clock_now E (delay n s) = clock_now E s"
  "clock_now E (delayMicroseconds n s) = clock_now E s"
  "clock_now E (pinMode p m s) = clock_now E s"
  "clock_now E (digitalWrite p v s) = clock_now E s"
  "clock_now E (reportLockBits b s) = clock_now E s"
  "clock_now E (printDeviceName sig s) = clock_now E s"
  "clock_now E (powerUp s) = clock_now E s"
  by (simp_all add: clock_now_def Serial_print_def Serial_println_def Serial_print_HEX_def
      Serial_println_HEX_def delay_def delayMicroseconds_def pinMode_def digitalWrite_def
      reportLockBits_def printDeviceName_def powerUp_def Let_def)

lemma shiftOut_bind_clock:
  "clock_steps E \<Longrightarrow> clock_now E s + 302 < 4294967296 \<Longrightarrow>
     (\<exists>y. shiftOut E v a s \<bind> f = Some y \<and> Q y) =
     (\<forall>r s'. shiftOut E v a s = Some (r, s') \<longrightarrow> clock_now E s' \<le> clock_now E s + 302 \<longrightarrow>
        (\<exists>y. f (r, s') = Some y \<and> Q y))"
  using shiftOut_clock[of E s v a] by auto

lemma waitSDO_bind_clock:
  "clock_steps E \<Longrightarrow> clock_now E s + 302 < 4294967296 \<Longrightarrow>
     (\<exists>y. waitSDO E s \<bind> f = Some y \<and> Q y) =
     (\<forall>s'. waitSDO E s = Some s' \<longrightarrow> clock_now E s' \<le> clock_now E s + 302 \<longrightarrow>
        (\<exists>y. f s' = Some y \<and> Q y))"
  using waitSDO_clock[of E s] by auto

lemma readFuses_clock:
  "clock_steps E \<Longrightarrow> clock_now E s + 2718 < 4294967296 \<Longrightarrow>
     \<exists>s'. readFuses E s = Some s' \<and> clock_now E s' \<le> clock_now E s + 2718"
  by (simp add: readFuses_def Let_def shiftOut_bind_clock)

lemma readLockBits_clock:
  "clock_steps E \<Longrightarrow> clock_now E s + 1208 < 4294967296 \<Longrightarrow>
     \<exists>s'. readLockBits E s = Some s' \<and> clock_now E s' \<le> clock_now E s + 1208"
  by (simp add: readLockBits_def Let_def shiftOut_bind_clock waitSDO_bind_clock)

lemma eraseFlashAndLockBits_clock:
  "clock_steps E \<Longrightarrow> clock_now E s + 1208 < 4294967296 \<Longrightarrow>
     \<exists>s'. eraseFlashAndLockBits E s = Some s' \<and> clock_now E s' \<le> clock_now E s + 1208"
  by (simp add: eraseFlashAndLockBits_def Let_def shiftOut_bind_clock waitSDO_bind_clock)

lemma writeFuse_clock:
  "clock_steps E \<Longrightarrow> clock_now E s + 1208 < 4294967296 \<Longrightarrow>
     \<exists>s'. writeFuse E addr v s = Some s' \<and> clock_now E s' \<le> clock_now E s + 1208"
  by (simp add: writeFuse_def Let_def shiftOut_bind_clock)

lemma readSignature_clock:
  "clock_steps E \<Longrightarrow> clock_now E s + 2416 < 4294967296 \<Longrightarrow>
     \<exists>y. readSignature E s = Some y \<and> clock_now E (snd y) \<le> clock_now E s + 2416"
  by (simp add: readSignature_unfold shiftOut_bind_clock del: split_paired_Ex)

lemma writeFuse_bind_clock:
  "clock_steps E \<Longrightarrow> clock_now E s + 1208 < 4294967296 \<Longrightarrow>
     (\<exists>y. writeFuse E addr v s \<bind> f = Some y \<and> Q y) =
     (\<forall>s'. writeFuse E addr v s = Some s' \<longrightarrow> clock_now E s' \<le> clock_now E s + 1208 \<longrightarrow>
        (\<exists>y. f s' = Some y \<and> Q y))"
  using writeFuse_clock[of E s addr v] by auto

lemma writeFuse_last_clock:
  "clock_steps E \<Longrightarrow> clock_now E s + 1208 < 4294967296 \<Longrightarrow>
     (\<exists>y. writeFuse E addr v s = Some y \<and> Q y) =
     (\<forall>s'. writeFuse E addr v s = Some s' \<longrightarrow> clock_now E s' \<le> clock_now E s + 1208 \<longrightarrow> Q s')"
  using writeFuse_clock[of E s addr v] by auto

lemma waitButtonRelease_clock:
  assumes "button_live E"
  shows "\<exists>s'. waitButtonRelease E s = Some s' \<and> clock_now E s' = clock_now E s"
proof -
  from waitButtonRelease_live[OF assms] obtain s' where r: "waitButtonRelease E s = Some s'"
    by blast
  from waitButtonRelease_same[OF r] have "clock_now E s' = clock_now E s"
    by (simp add: clock_now_def)
  with r show ?thesis by blast
qed

lemma writeDefaults_clock:
  assumes "clock_steps E" "button_live E" "clock_now E s + 3624 < 4294967296"
  shows "\<exists>s'. writeDefaults E sig c s = Some s' \<and> clock_now E s' \<le> clock_now E s + 3624"
proof (cases "sig = ATTINY13 \<or> sig = ATTINY24 \<or> sig = ATTINY44 \<or> sig = ATTINY84 \<or>
                sig = ATTINY25 \<or> sig = ATTINY45 \<or> sig = ATTINY85")
  case True
  with assms(1,3) show ?thesis
    by (auto simp: writeDefaults_def Let_def writeFuse_bind_clock writeFuse_last_clock)
next
  case False
  with waitButtonRelease_clock[OF assms(2), of s] show ?thesis
    by (auto simp: writeDefaults_def Let_def)
qed

lemma programTarget_clock:
  assumes "clock_steps E" "button_live E" "clock_now E s + 12684 < 4294967296"
  shows "\<exists>s'. programTarget E sig c s = Some s' \<and> clock_now E s' \<le> clock_now E s + 12684"
proof -
  from readFuses_clock[OF assms(1), of s] assms(3) obtain s1 where
    1: "readFuses E s = Some s1" "clock_now E s1 \<le> clock_now E s + 2718" by auto
  from readLockBits_clock[OF assms(1), of s1] assms(3) 1(2) obtain s2 where
    2: "readLockBits E s1 = Some s2" "clock_now E s2 \<le> clock_now E s + 3926" by auto
  from eraseFlashAndLockBits_clock[OF assms(1), of s2] assms(3) 2(2) obtain s3 where
    3: "(if isErase c then eraseFlashAndLockBits E s2 else Some s2) = Some s3"
       "clock_now E s3 \<le> clock_now E s + 5134"
    by (cases "isErase c") auto
  from writeDefaults_clock[OF assms(1,2), of s3 sig c] assms(3) 3(2) obtain s4 where
    4: "writeDefaults E sig c s3 = Some s4" "clock_now E s4 \<le> clock_now E s + 8758" by auto
  let ?s5 = "Serial_println ''Fuses and lock bits will be read again to check values...'' s4"
  from readFuses_clock[OF assms(1), of ?s5] assms(3) 4(2) obtain s6 where
    6: "readFuses E ?s5 = Some s6" "clock_now E s6 \<le> clock_now E s + 11476" by auto
  from readLockBits_clock[OF assms(1), of s6] assms(3) 6(2) obtain s7 where
    7: "readLockBits E s6 = Some s7" "clock_now E s7 \<le> clock_now E s + 12684" by auto
  show ?thesis
    using 1 2 3 4 6 7 by (simp add: programTarget_def Let_def)
qed

lemma session_clock:
  assumes "clock_steps E" "button_live E" "clock_now E s + 15100 < 4294967296"
  shows "\<exists>s'. session E c s = Some s'"
proof -
  from readSignature_clock[OF assms(1), of "powerUp s"] assms(3) obtain sig s1 where
    1: "readSignature E (powerUp s) = Some (sig, s1)" "clock_now E s1 \<le> clock_now E s + 2416"
    by auto
  let ?s4 = "Serial_println_HEX (unat sig)
         (Serial_print (CHR 0x09 # ''Signature is: '')
           (Serial_println ''Reading complete..'' s1))"
  from programTarget_clock[OF assms(1,2), of ?s4 sig c] assms(3) 1(2) obtain s5 where
    "programTarget E sig c ?s4 = Some s5" by auto
  with 1 show ?thesis by (simp add: session_def Let_def)
qed


subsection \<open>The sample environments\<close>



lemma powerUp_pin_reads [simp]: "pin_reads (powerUp s) = pin_reads s"
  by (simp add: powerUp_def Let_def Serial_println_def delayMicroseconds_def pinMode_def)

lemma live_high: "sdo_live E_high" "button_live E_high"
  by (simp_all add: sdo_live_def button_live_def E_high_def)

lemma live_alt: "sdo_live E_alt" "button_live E_alt"
proof -
  have "\<exists>m. even (i + m)" for i :: nat by (rule exI[of _ i]) simp
  then show "sdo_live E_alt" "button_live E_alt"
    by (simp_all add: sdo_live_def button_live_def E_alt_def)
qed



lemma response_high: "response_byte (samples E_high k 11) = 0xFF"
proof -
  have "samples E_high k 11 = replicate 11 True"
    by (simp add: samples_def E_high_def map_replicate_const)
  moreover have "response_byte (replicate 11 True) = 0xFF" by code_simp
  ultimately show ?thesis by simp
qed

lemma shiftOut_high: "shiftOut E_high v a s = Some (r, s') \<Longrightarrow> r = 0xFF"
  by (auto dest!: shiftOut_samples simp: response_high)





subsection \<open>Sessions that do not return, sessions without a target\<close>

lemma bind_None_right [simp]: "m \<bind> (\<lambda>x. None) = None"
  by (cases m) simp_all












lemma shiftOut_wrap:
  assumes "millis_reads s = 0"
  shows "shiftOut E_wrap v a s = None"
proof -
  have "waitLoop E_wrap 0xFFFFFED3 t = None" for t
    by (rule waitLoop_never) (simp_all add: E_wrap_def READING_TIMEOUT_MILLIS_def)
  then show ?thesis
    using assms by (simp add: shiftOut_eq waitSDO_def split_def E_wrap_def)
qed

lemma powerUp_millis_reads [simp]: "millis_reads (powerUp s) = millis_reads s"
  by (simp add: powerUp_def Let_def Serial_println_def delayMicroseconds_def pinMode_def)

lemma readSignature_wrap:
  assumes "millis_reads s = 0"
  shows "readSignature E_wrap s = None"
  by (simp add: readSignature_unfold shiftOut_wrap[OF assms])

lemma session_wrap: "session E_wrap c s_init = None"
  by (simp add: session_def readSignature_wrap s_init_def)

lemma clock_low: "clock_steps E_low" "clock_now E_low s_init + 15100 < 4294967296"
proof -
  have "(of_nat (k + 1) :: u32) \<noteq> of_nat k" for k by simp
  then have "\<exists>j. (of_nat (k + j) :: u32) \<noteq> of_nat k" for k by blast
  then show "clock_steps E_low" by (simp add: clock_steps_def E_low_def)
  show "clock_now E_low s_init + 15100 < 4294967296"
    by (simp add: clock_now_def E_low_def s_init_def)
qed

lemma button_low: "button_live E_low"
  by (simp add: button_live_def E_low_def)



subsection \<open>Claims on the operations\<close>





lemma shiftOut_high':
  "shiftOut E_high v a s = Some (r, s') \<Longrightarrow>
     r = 0xFF \<and> responses (trace s') = responses (trace s) @ [0xFF]"
  using shiftOut_high[of v a s r s'] shiftOut_post(2)[of E_high v a s r s'] by simp


lemma reportLockBits_trace:
  "trace (reportLockBits v s) = trace s @
     [SerialPrintln (CHR 0x0A # CHR 0x09 # CHR 0x09 #
        (if v AND 1 = 0 then ''LB1 Programmed'' else ''LB1 Not Programmed'')),
      SerialPrintln (CHR 0x09 # CHR 0x09 #
        (if v AND 2 = 0 then ''LB2 Programmed'' else ''LB2 Not Programmed''))]"
  by (simp add: reportLockBits_def Let_def)

lemma readLockBits_report:
  assumes "readLockBits E s = Some s'"
  shows "\<exists>r1 r2 v pre post.
           responses (trace s') = responses (trace s) @ [r1, r2, v] \<and>
           trace s' = pre @
             [SerialPrint (CHR 0x09 # ''Lock: ''), SerialPrintHex (unat v),
              SerialPrintln (CHR 0x0A # CHR 0x09 # CHR 0x09 #
                (if v AND 1 = 0 then ''LB1 Programmed'' else ''LB1 Not Programmed'')),
              SerialPrintln (CHR 0x09 # CHR 0x09 #
                (if v AND 2 = 0 then ''LB2 Programmed'' else ''LB2 Not Programmed''))] @ post"
proof -
  let ?s0 = "Serial_println ''Reading lock bits...'' s"
  from assms obtain r1 s1 r2 s2 v s3 s7 where
    1: "shiftOut E 0x04 0x4C ?s0 = Some (r1, s1)"
    and 2: "shiftOut E 0x00 0x78 s1 = Some (r2, s2)"
    and 3: "shiftOut E 0x00 0x7C s2 = Some (v, s3)"
    and 4: "waitSDO E (reportLockBits v (Serial_print_HEX (unat v)
              (Serial_print (CHR 0x09 # ''Lock: '') s3))) = Some s7"
    and 5: "s' = Serial_println ''Reading Lock Bits complete'' s7"
    by (auto simp: readLockBits_def bind_eq_Some_conv Let_def)
  from waitSDO_trace[OF 4] obtain evs where
    evs: "trace s7 = trace (reportLockBits v (Serial_print_HEX (unat v)
              (Serial_print (CHR 0x09 # ''Lock: '') s3))) @ evs" "list_all is_poll evs"
    by blast
  have r: "responses (trace s') = responses (trace s) @ [r1, r2, v]"
    using shiftOut_post(2)[OF 1] shiftOut_post(2)[OF 2] shiftOut_post(2)[OF 3]
      poll_responses[OF evs(2)]
    by (simp add: 5 evs(1) reportLockBits_trace)
  have t: "trace s' = trace s3 @
             [SerialPrint (CHR 0x09 # ''Lock: ''), SerialPrintHex (unat v),
              SerialPrintln (CHR 0x0A # CHR 0x09 # CHR 0x09 #
                (if v AND 1 = 0 then ''LB1 Programmed'' else ''LB1 Not Programmed'')),
              SerialPrintln (CHR 0x09 # CHR 0x09 #
                (if v AND 2 = 0 then ''LB2 Programmed'' else ''LB2 Not Programmed''))] @
             (evs @ [SerialPrintln ''Reading Lock Bits complete''])"
    by (simp add: 5 evs(1) reportLockBits_trace)
  from r t show ?thesis by blast
qed

text \<open>
  C5. The report of the lock bits is inverted: for every byte \<open>v\<close>, LB1 is reported as
  programmed exactly when bit 0 of \<open>v\<close> is 0 and LB2 exactly when bit 1 is 0. So \<open>0x03\<close>
  reports both as not programmed, \<open>0x00\<close> both as programmed, \<open>0x01\<close> and \<open>0x02\<close> one
  of each. \<open>readLockBits\<close> reports in this way the byte that its third transaction
  returned.
\<close>

theorem lock_bits_inverted:
  "trace (reportLockBits v s) = trace s @
     [SerialPrintln (CHR 0x0A # CHR 0x09 # CHR 0x09 #
        (if v AND 1 = 0 then ''LB1 Programmed'' else ''LB1 Not Programmed'')),
      SerialPrintln (CHR 0x09 # CHR 0x09 #
        (if v AND 2 = 0 then ''LB2 Programmed'' else ''LB2 Not Programmed''))] \<and>
   trace (reportLockBits 0x03 s) = trace s @
     [SerialPrintln (CHR 0x0A # CHR 0x09 # CHR 0x09 # ''LB1 Not Programmed''),
      SerialPrintln (CHR 0x09 # CHR 0x09 # ''LB2 Not Programmed'')] \<and>
   trace (reportLockBits 0x00 s) = trace s @
     [SerialPrintln (CHR 0x0A # CHR 0x09 # CHR 0x09 # ''LB1 Programmed''),
      SerialPrintln (CHR 0x09 # CHR 0x09 # ''LB2 Programmed'')] \<and>
   trace (reportLockBits 0x01 s) = trace s @
     [SerialPrintln (CHR 0x0A # CHR 0x09 # CHR 0x09 # ''LB1 Not Programmed''),
      SerialPrintln (CHR 0x09 # CHR 0x09 # ''LB2 Programmed'')] \<and>
   trace (reportLockBits 0x02 s) = trace s @
     [SerialPrintln (CHR 0x0A # CHR 0x09 # CHR 0x09 # ''LB1 Programmed''),
      SerialPrintln (CHR 0x09 # CHR 0x09 # ''LB2 Not Programmed'')] \<and>
   (\<forall>s'. readLockBits E s = Some s' \<longrightarrow>
      (\<exists>r1 r2 v' pre post.
         responses (trace s') = responses (trace s) @ [r1, r2, v'] \<and>
         trace s' = pre @
           [SerialPrint (CHR 0x09 # ''Lock: ''), SerialPrintHex (unat v'),
            SerialPrintln (CHR 0x0A # CHR 0x09 # CHR 0x09 #
              (if v' AND 1 = 0 then ''LB1 Programmed'' else ''LB1 Not Programmed'')),
            SerialPrintln (CHR 0x09 # CHR 0x09 #
              (if v' AND 2 = 0 then ''LB2 Programmed'' else ''LB2 Not Programmed''))] @ post))"
proof -
  have a: "\<forall>s'. readLockBits E s = Some s' \<longrightarrow>
      (\<exists>r1 r2 v' pre post.
         responses (trace s') = responses (trace s) @ [r1, r2, v'] \<and>
         trace s' = pre @
           [SerialPrint (CHR 0x09 # ''Lock: ''), SerialPrintHex (unat v'),
            SerialPrintln (CHR 0x0A # CHR 0x09 # CHR 0x09 #
              (if v' AND 1 = 0 then ''LB1 Programmed'' else ''LB1 Not Programmed'')),
            SerialPrintln (CHR 0x09 # CHR 0x09 #
              (if v' AND 2 = 0 then ''LB2 Programmed'' else ''LB2 Not Programmed''))] @ post)"
    using readLockBits_report[of E s] by blast
  show ?thesis
    by (intro conjI a) (simp_all add: reportLockBits_trace)
qed

theorem lock_bits_inverted_witness:
  "\<exists>s' r1 r2 pre post. readLockBits E_high s_init = Some s' \<and>
      responses (trace s') = [r1, r2, 0xFF] \<and>
      trace s' = pre @
        [SerialPrint (CHR 0x09 # ''Lock: ''), SerialPrintHex 255,
         SerialPrintln (CHR 0x0A # CHR 0x09 # CHR 0x09 # ''LB1 Not Programmed''),
         SerialPrintln (CHR 0x09 # CHR 0x09 # ''LB2 Not Programmed'')] @ post"
proof -
  obtain s' where r: "readLockBits E_high s_init = Some s'"
    using readLockBits_live[OF live_high(1)] by blast
  from lock_bits_inverted[of _ s_init E_high] r obtain r1 r2 v pre post where
    p: "responses (trace s') = responses (trace s_init) @ [r1, r2, v]"
    and t: "trace s' = pre @
           [SerialPrint (CHR 0x09 # ''Lock: ''), SerialPrintHex (unat v),
            SerialPrintln (CHR 0x0A # CHR 0x09 # CHR 0x09 #
              (if v AND 1 = 0 then ''LB1 Programmed'' else ''LB1 Not Programmed'')),
            SerialPrintln (CHR 0x09 # CHR 0x09 #
              (if v AND 2 = 0 then ''LB2 Programmed'' else ''LB2 Not Programmed''))] @ post"
    by blast
  have "set (responses (trace s')) \<subseteq> {0xFF}"
    using r
    by (auto simp: readLockBits_def bind_eq_Some_conv Let_def s_init_def reportLockBits_trace
        poll_responses dest!: shiftOut_high' waitSDO_trace)
  with p have v: "v = 0xFF" by simp
  from r p t show ?thesis
    unfolding v by (simp add: s_init_def) blast
qed


subsection \<open>Claims on the session\<close>

lemma session_sequences:
  assumes "session E c s = Some s'"
  shows "\<exists>sig s1 tr. readSignature E (powerUp s) = Some (sig, s1) \<and>
           transactions (trace s') = transactions (trace s) @ session_sequence sig c \<and>
           wire_out (trace s') =
             wire_out (trace s) @ concat (map frame_out (session_sequence sig c)) \<and>
           new_frames s s' = session_sequence sig c \<and>
           trace s' = tr @ powerDown_events"
proof -
  from session_post[OF assms] obtain sig s1 s5 where
    r: "readSignature E (powerUp s) = Some (sig, s1)" and p: "s' = powerDown s5"
    and t: "transactions (trace s5) = transactions (trace s) @ session_sequence sig c"
    by blast
  from session_wire[OF assms] r have
    w: "wire_out (trace s') = wire_out (trace s) @ concat (map frame_out (session_sequence sig c))"
    by auto
  have "transactions (trace s') = transactions (trace s) @ session_sequence sig c"
    using t by (simp add: p powerDown_trace)
  moreover have "trace s' = trace s5 @ powerDown_events"
    by (simp add: p powerDown_trace)
  ultimately show ?thesis
    using r w new_frames_eq[OF w] by blast
qed









lemma last_write_powerDown:
  "last_write VCC (tr @ powerDown_events) = Some False"
  "last_write RST (tr @ powerDown_events) = Some True"
  by (simp_all add: last_write_def powerDown_events_def)

lemma last_write_powerUp:
  "last_write VCC (trace (powerUp s_init)) = Some True"
  "last_write RST (trace (powerUp s_init)) = Some False"
  by (simp_all add: last_write_def powerUp_def Let_def s_init_def digitalWrite_def pinMode_def
      delayMicroseconds_def Serial_println_def emit_def)

lemma session_rails_off:
  assumes "session E c s = Some s'"
  shows "last_write VCC (trace s') = Some False \<and> last_write RST (trace s') = Some True"
proof -
  from session_sequences[OF assms] obtain tr where "trace s' = tr @ powerDown_events"
    by blast
  then show ?thesis by (simp add: last_write_powerDown)
qed




text \<open>
  C9 fails on the code. After power up target VCC and the 12 V rail are on. Where SDO
  stays low and the clock reads \<open>2^32 - 301\<close> at the start of the first wait, the first
  transaction of \<open>readSignature\<close> does not return, so the session does not return and
  lines 187 to 189 are never reached: the target stays powered. The timeout path alone
  does reach them: with SDO low for ever and a clock that starts at 0 the session returns
  with VCC and the 12 V rail off.
\<close>

theorem power_down_not_reached:
  "last_write VCC (trace (powerUp s_init)) = Some True \<and>
   last_write RST (trace (powerUp s_init)) = Some False \<and>
   readSignature E_wrap (powerUp s_init) = None \<and>
   session E_wrap tReceivedChar s_init = None \<and>
   map_option (last_write VCC \<circ> trace) (session E_low tReceivedChar s_init) = Some (Some False) \<and>
   map_option (last_write RST \<circ> trace) (session E_low tReceivedChar s_init) = Some (Some True)"
proof -
  obtain s' where t: "session E_low tReceivedChar s_init = Some s'"
    using session_clock[OF clock_low(1) button_low clock_low(2)] by blast
  have "readSignature E_wrap (powerUp s_init) = None"
    by (rule readSignature_wrap) (simp add: s_init_def)
  then show ?thesis
    using session_rails_off[OF t] t session_wrap[of tReceivedChar]
    by (simp add: last_write_powerUp)
qed


end
